theory Spec2Isabelle
  imports Main "HOL-Library.AList"
begin

section \<open>The indexer of webdb (lib/indexer.js)\<close>

text \<open>
  A shallow embedding of \<^verbatim>\<open>src/lib/indexer.js\<close>. The indexer is written against three
  collaborators: the archive (a versioned file tree), the tables with their stores, and the
  meta store that keeps one \<^verbatim>\<open>indexMeta\<close> record per archive. Their state is carried in
  records; every \<^verbatim>\<open>async\<close> function becomes a function from the state to a result and the
  new state, and a rejected promise is the result \<open>Inl e\<close>. The awaits of one function
  are run in program order, and \<^verbatim>\<open>Promise.all\<close> over a mapped array is run in array order.
  The named lock \<^verbatim>\<open>index:<url>\<close> is free on entry and released in \<^verbatim>\<open>finally\<close> in such
  a run, so it is not part of the state.
\<close>

subsection \<open>JavaScript values and errors\<close>

text \<open>An exception object; the indexer reads only \<^verbatim>\<open>e.name\<close>.\<close>

datatype js_error = JsError (err_name: string) (err_message: string)

text \<open>
  The values \<^verbatim>\<open>JSON.parse\<close>, a validator or a preprocessor can produce. Numbers are kept
  as integers with \<^verbatim>\<open>NaN\<close> apart: the indexer only tests them for truthiness.
\<close>

datatype jsvalue =
    JUndefined
  | JNull
  | JBool bool
  | JNumber int
  | JNaN
  | JString string
  | JArray "jsvalue list"
  | JObject "(string \<times> jsvalue) list"

text \<open>What \<^verbatim>\<open>if (v)\<close> tests.\<close>

fun truthy :: "jsvalue \<Rightarrow> bool" where
  "truthy JUndefined = False"
| "truthy JNull = False"
| "truthy (JBool b) = b"
| "truthy (JNumber n) = (n \<noteq> 0)"
| "truthy JNaN = False"
| "truthy (JString s) = (s \<noteq> [])"
| "truthy (JArray xs) = True"
| "truthy (JObject kvs) = True"

text \<open>The builtins the indexer calls: \<^verbatim>\<open>JSON.parse\<close> and \<^verbatim>\<open>Date.now()\<close>.\<close>

record runtime =
  JSON_parse :: "string \<Rightarrow> js_error + jsvalue"
  Date_now :: nat

subsection \<open>The archive\<close>

text \<open>The object \<^verbatim>\<open>archive.getInfo()\<close> resolves to (\<^verbatim>\<open>version\<close>, \<^verbatim>\<open>isOwner\<close>).\<close>

record archiveInfo =
  info_version :: nat
  isOwner :: bool

text \<open>An entry of \<^verbatim>\<open>archive.history()\<close>: \<^verbatim>\<open>{path, type, version}\<close>; \<open>utype\<close> is \<^verbatim>\<open>type\<close>.\<close>

record update =
  path :: string
  utype :: string
  update_version :: nat

text \<open>
  The archive handle. \<open>getInfo\<close>, \<open>history\<close> and \<open>readFile\<close> give what the promise of the
  method settles to. \<open>fileEvents\<close> is the activity stream, \<open>None\<close> when there is none,
  otherwise the patterns it was created with.
\<close>

record archive =
  url :: string
  isWritable :: "bool option"
  localPath :: "string option"
  fileEvents :: "(string \<Rightarrow> bool) option"
  getInfo :: "js_error + archiveInfo"
  history :: "nat \<Rightarrow> nat \<Rightarrow> js_error + update list"
  readFile :: "string \<Rightarrow> js_error + string"

subsection \<open>Stores, tables and the database\<close>

text \<open>The value \<^verbatim>\<open>readAndIndexFile\<close> stores: \<^verbatim>\<open>{url, origin, indexedAt, record}\<close>.\<close>

record indexed_record =
  entry_url :: string
  origin :: string
  indexedAt :: nat
  entry_record :: jsvalue

text \<open>The meta record \<^verbatim>\<open>{url, version, isWritable, localPath}\<close>; \<open>version\<close> is the watermark.\<close>

record indexMeta =
  meta_url :: string
  version :: nat
  meta_isWritable :: "bool option"
  meta_localPath :: "string option"

text \<open>
  A table: \<^verbatim>\<open>table.name\<close>, \<^verbatim>\<open>table.isRecordFile\<close>, \<^verbatim>\<open>table.schema.validator\<close> and
  \<^verbatim>\<open>table.schema.preprocess\<close> (both optional, both may throw), \<^verbatim>\<open>table.listRecordFiles\<close>
  (the record URLs of the matches it resolves to; the table of each match is the table
  itself) and the store \<^verbatim>\<open>table.level\<close>. A store whose \<open>level_error\<close> is \<open>Some e\<close> rejects
  every \<^verbatim>\<open>put\<close> and \<^verbatim>\<open>del\<close> with \<open>e\<close>.
\<close>

record table =
  name :: string
  isRecordFile :: "string \<Rightarrow> bool"
  validator :: "(jsvalue \<Rightarrow> js_error + jsvalue) option"
  preprocess :: "(jsvalue \<Rightarrow> js_error + jsvalue) option"
  listRecordFiles :: "archive \<Rightarrow> js_error + string list"
  level :: "string \<rightharpoonup> indexed_record"
  level_error :: "js_error option"

text \<open>The signals of \<^verbatim>\<open>db.emit\<close> and \<^verbatim>\<open>db[tableName].emit\<close>.\<close>

datatype signal =
    IndexUpdated string string nat
  | IndexesUpdated string nat
  | SourceMissing string
  | SourceFound string
  | SourceError string js_error
  | IndexError string js_error

text \<open>
  What a run does to the outside, in order: signals, writes to a table store (table name,
  key), writes to the meta store, and the timer of the retry loop (milliseconds).
\<close>

datatype event =
    Emit signal
  | TablePut string string indexed_record
  | TableDel string string
  | MetaPut string indexMeta
  | MetaDel string
  | Wait nat

text \<open>
  The database object: \<^verbatim>\<open>db.isOpen\<close>, \<^verbatim>\<open>db.isBeingOpened\<close>, whether \<^verbatim>\<open>db.level\<close> is
  there, \<^verbatim>\<open>db.tables\<close>, the store \<^verbatim>\<open>db._indexMetaLevel\<close>, the keys of \<^verbatim>\<open>db._archives\<close>,
  \<^verbatim>\<open>anymatch(db._tableFilePatterns, _)\<close>, and the events so far.
\<close>

record db =
  isOpen :: bool
  isBeingOpened :: bool
  db_level :: bool
  tables :: "table list"
  indexMetaLevel :: "string \<rightharpoonup> indexMeta"
  archives :: "string set"
  tableFilePatterns :: "string \<Rightarrow> bool"
  trace :: "event list"

definition emit :: "signal \<Rightarrow> db \<Rightarrow> db" where
  "emit s d = d\<lparr>trace := trace d @ [Emit s]\<rparr>"

text \<open>\<^verbatim>\<open>table.level.put(key, value)\<close> and \<^verbatim>\<open>table.level.del(key)\<close> on table \<open>i\<close>.\<close>

definition table_put :: "db \<Rightarrow> nat \<Rightarrow> string \<Rightarrow> indexed_record \<Rightarrow> js_error + db" where
  "table_put d i key v =
     (let t = tables d ! i in
      case level_error t of
        Some e \<Rightarrow> Inl e
      | None \<Rightarrow> Inr (d\<lparr>tables := (tables d)[i := t\<lparr>level := (level t)(key \<mapsto> v)\<rparr>],
                       trace := trace d @ [TablePut (name t) key v]\<rparr>))"

definition table_del :: "db \<Rightarrow> nat \<Rightarrow> string \<Rightarrow> js_error + db" where
  "table_del d i key =
     (let t = tables d ! i in
      case level_error t of
        Some e \<Rightarrow> Inl e
      | None \<Rightarrow> Inr (d\<lparr>tables := (tables d)[i := t\<lparr>level := (level t)(key := None)\<rparr>],
                       trace := trace d @ [TableDel (name t) key]\<rparr>))"

text \<open>\<^verbatim>\<open>db._indexMetaLevel.put\<close> and \<^verbatim>\<open>.del\<close>.\<close>

definition meta_put :: "db \<Rightarrow> string \<Rightarrow> indexMeta \<Rightarrow> db" where
  "meta_put d key m =
     d\<lparr>indexMetaLevel := (indexMetaLevel d)(key \<mapsto> m), trace := trace d @ [MetaPut key m]\<rparr>"

definition meta_del :: "db \<Rightarrow> string \<Rightarrow> db" where
  "meta_del d key =
     d\<lparr>indexMetaLevel := (indexMetaLevel d)(key := None), trace := trace d @ [MetaDel key]\<rparr>"

text \<open>
  Modelled from the spec: \<^verbatim>\<open>LevelUtil.update\<close> of \<^verbatim>\<open>lib/util-level.js\<close>, which is not among the
  sources. The spec has the pass persist the new watermark in the archive's meta
  record, which keeps its other fields: the stored record is read, the given fields
  \<^verbatim>\<open>url\<close> and \<^verbatim>\<open>version\<close> are assigned, and the record is put back
  (a record with only these two fields when there was none).
\<close>

definition LevelUtil_update :: "db \<Rightarrow> string \<Rightarrow> string \<Rightarrow> nat \<Rightarrow> db" where
  "LevelUtil_update d key u v =
     meta_put d key
       (case indexMetaLevel d key of
          None \<Rightarrow> \<lparr>meta_url = u, version = v, meta_isWritable = None, meta_localPath = None\<rparr>
        | Some m \<Rightarrow> m\<lparr>meta_url := u, version := v\<rparr>)"

subsection \<open>The record dispatcher\<close>

text \<open>What \<^verbatim>\<open>readAndIndexFile\<close> and \<^verbatim>\<open>unindexFile\<close> return: \<^verbatim>\<open>table.name\<close> or \<^verbatim>\<open>false\<close>.\<close>

datatype touched = TableName string | RFalse

text \<open>
  The loop \<^verbatim>\<open>for (i = 0; i < tables.length; i++) if (table.isRecordFile(filepath)) ...\<close>
  leaves at the first table that owns the path: its index.
\<close>

fun firstRecordTable :: "table list \<Rightarrow> string \<Rightarrow> nat option" where
  "firstRecordTable [] filepath = None"
| "firstRecordTable (t # ts) filepath =
     (if isRecordFile t filepath then Some 0
      else map_option Suc (firstRecordTable ts filepath))"

text \<open>
  The \<^verbatim>\<open>try\<close> block of \<^verbatim>\<open>readAndIndexFile\<close>. Falling out of the loop is the result
  \<open>RFalse\<close> (the \<^verbatim>\<open>return false\<close> after the block). The store is written last, so nothing
  has been changed when the block throws.
\<close>

definition readAndIndexFile_try ::
  "runtime \<Rightarrow> db \<Rightarrow> archive \<Rightarrow> string \<Rightarrow> js_error + (touched \<times> db)" where
  "readAndIndexFile_try rt d a filepath =
     (let fileUrl = url a @ filepath in
      case readFile a filepath of
        Inl e \<Rightarrow> Inl e
      | Inr content \<Rightarrow>
     (case JSON_parse rt content of
        Inl e \<Rightarrow> Inl e
      | Inr record0 \<Rightarrow>
     (case firstRecordTable (tables d) filepath of
        None \<Rightarrow> Inr (RFalse, d)
      | Some i \<Rightarrow>
     (let t = tables d ! i in
      case (case validator t of None \<Rightarrow> Inr (JBool True) | Some f \<Rightarrow> f record0) of
        Inl e \<Rightarrow> Inl e
      | Inr isValid \<Rightarrow>
          if truthy isValid then
            (case (case preprocess t of
                     None \<Rightarrow> Inr record0
                   | Some f \<Rightarrow>
                       (case f record0 of
                          Inl e \<Rightarrow> Inl e
                        | Inr newRecord \<Rightarrow> Inr (if truthy newRecord then newRecord else record0))) of
               Inl e \<Rightarrow> Inl e
             | Inr record1 \<Rightarrow>
                 (case table_put d i fileUrl
                         \<lparr>entry_url = fileUrl, origin = url a, indexedAt = Date_now rt,
                          entry_record = record1\<rparr> of
                    Inl e \<Rightarrow> Inl e
                  | Inr d' \<Rightarrow> Inr (TableName (name t), d')))
          else
            (case table_del d i fileUrl of
               Inl e \<Rightarrow> Inl e
             | Inr d' \<Rightarrow> Inr (TableName (name t), d'))))))"

text \<open>\<^verbatim>\<open>readAndIndexFile\<close>: the block, and the \<^verbatim>\<open>catch\<close> that emits \<^verbatim>\<open>index-error\<close>.\<close>

definition readAndIndexFile ::
  "runtime \<Rightarrow> db \<Rightarrow> archive \<Rightarrow> archiveInfo \<Rightarrow> string \<Rightarrow> (js_error + touched) \<times> db" where
  "readAndIndexFile rt d a archiveMeta filepath =
     (case readAndIndexFile_try rt d a filepath of
        Inr (r, d') \<Rightarrow> (Inr r, d')
      | Inl e \<Rightarrow> (Inr RFalse, emit (IndexError (url a @ filepath) e) d))"

text \<open>The \<^verbatim>\<open>try\<close> block of \<^verbatim>\<open>unindexFile\<close>.\<close>

definition unindexFile_try :: "db \<Rightarrow> archive \<Rightarrow> string \<Rightarrow> js_error + (touched \<times> db)" where
  "unindexFile_try d a filepath =
     (let fileUrl = url a @ filepath in
      case firstRecordTable (tables d) filepath of
        None \<Rightarrow> Inr (RFalse, d)
      | Some i \<Rightarrow>
          (case table_del d i fileUrl of
             Inl e \<Rightarrow> Inl e
           | Inr d' \<Rightarrow> Inr (TableName (name (tables d ! i)), d')))"

text \<open>\<^verbatim>\<open>unindexFile\<close>: the \<^verbatim>\<open>catch\<close> only writes to the console.\<close>

definition unindexFile :: "db \<Rightarrow> archive \<Rightarrow> string \<Rightarrow> (js_error + touched) \<times> db" where
  "unindexFile d a filepath =
     (case unindexFile_try d a filepath of
        Inr (r, d') \<Rightarrow> (Inr r, d')
      | Inl e \<Rightarrow> (Inr RFalse, d))"

subsection \<open>Scanning the history and applying the updates\<close>

text \<open>
  \<^verbatim>\<open>scanArchiveHistoryForUpdates\<close>: the object \<^verbatim>\<open>updates\<close> is an association list;
  \<^verbatim>\<open>updates[update.path] = update\<close> replaces the value of a key that is there and appends
  a new key, and the order of the list is the order of \<^verbatim>\<open>Object.keys\<close>. This is the object
  of the code for keys that begin with a slash, which is what the paths of an archive do
  (\<open>slash_path\<close> below). It is not for two kinds of key that do not: an assignment to
  \<^verbatim>\<open>__proto__\<close> adds no key, and \<^verbatim>\<open>Object.keys\<close> lists keys that are array indices first,
  in numeric order. A statement about the update set has the hypothesis that the paths of
  the history begin with a slash.
\<close>

definition scan_step :: "db \<Rightarrow> update \<Rightarrow> (string \<times> update) list \<Rightarrow> (string \<times> update) list" where
  "scan_step d u updates =
     (if tableFilePatterns d (path u) then AList.update (path u) u updates else updates)"

definition scanArchiveHistoryForUpdates ::
  "db \<Rightarrow> archive \<Rightarrow> nat \<Rightarrow> nat \<Rightarrow> js_error + (string \<times> update) list" where
  "scanArchiveHistoryForUpdates d a start end =
     (case history a start end of
        Inl e \<Rightarrow> Inl e
      | Inr h \<Rightarrow> Inr (fold (scan_step d) h []))"

text \<open>The function mapped over \<^verbatim>\<open>Object.keys(updates)\<close> in \<^verbatim>\<open>applyUpdates\<close>.\<close>

definition applyUpdate ::
  "runtime \<Rightarrow> db \<Rightarrow> archive \<Rightarrow> archiveInfo \<Rightarrow> update \<Rightarrow> (js_error + touched) \<times> db" where
  "applyUpdate rt d a archiveMeta u =
     (if utype u = ''del'' then unindexFile d a (path u)
      else readAndIndexFile rt d a archiveMeta (path u))"

text \<open>
  \<^verbatim>\<open>applyUpdates\<close>: \<^verbatim>\<open>Promise.all\<close> of the mapped calls; every call runs, and the result
  is the array of their results, or the first rejection.
\<close>

fun applyUpdates ::
  "runtime \<Rightarrow> db \<Rightarrow> archive \<Rightarrow> archiveInfo \<Rightarrow> (string \<times> update) list
     \<Rightarrow> (js_error + touched list) \<times> db" where
  "applyUpdates rt d a archiveMeta [] = (Inr [], d)"
| "applyUpdates rt d a archiveMeta (pu # rest) =
     (case applyUpdate rt d a archiveMeta (snd pu) of
        (r, d1) \<Rightarrow>
          (case applyUpdates rt d1 a archiveMeta rest of
             (rs, d2) \<Rightarrow>
               ((case r of
                   Inl e \<Rightarrow> Inl e
                 | Inr x \<Rightarrow> (case rs of Inl e \<Rightarrow> Inl e | Inr xs \<Rightarrow> Inr (x # xs))), d2)))"

subsection \<open>The indexing pass\<close>

text \<open>\<^verbatim>\<open>new Set(results)\<close>, in iteration order: each value once, where it first occurs.\<close>

definition Set_of :: "'a list \<Rightarrow> 'a list" where
  "Set_of xs = fold (\<lambda>x acc. if x \<in> set acc then acc else acc @ [x]) xs []"

text \<open>The body of the loop over \<^verbatim>\<open>updatedTables\<close>; a falsy name is skipped.\<close>

definition emit_updated :: "archive \<Rightarrow> archiveInfo \<Rightarrow> touched \<Rightarrow> db \<Rightarrow> db" where
  "emit_updated a archiveMeta r d =
     (case r of
        RFalse \<Rightarrow> d
      | TableName n \<Rightarrow>
          if n = [] then d else emit (IndexUpdated n (url a) (info_version archiveMeta)) d)"

text \<open>
  \<^verbatim>\<open>indexArchive\<close>. \<^verbatim>\<open>db._indexMetaLevel.get(archive.url).catch(e => null)\<close> with
  \<^verbatim>\<open>indexMeta || {version: 0}\<close> is the stored record or one with version 0.
\<close>

definition stored_watermark :: "db \<Rightarrow> string \<Rightarrow> nat" where
  "stored_watermark d u = (case indexMetaLevel d u of None \<Rightarrow> 0 | Some m \<Rightarrow> version m)"

definition indexArchive :: "runtime \<Rightarrow> db \<Rightarrow> archive \<Rightarrow> (js_error + unit) \<times> db" where
  "indexArchive rt d a =
     (if \<not> isOpen d \<and> \<not> isBeingOpened d then (Inr (), d)
      else if \<not> db_level d then (Inr (), d)
      else
        case getInfo a of
          Inl e \<Rightarrow> (Inl e, d)
        | Inr archiveMeta \<Rightarrow>
            if stored_watermark d (url a) \<ge> info_version archiveMeta then (Inr (), d)
            else
              (case scanArchiveHistoryForUpdates d a
                      (stored_watermark d (url a) + 1) (info_version archiveMeta + 1) of
                 Inl e \<Rightarrow> (Inl e, d)
               | Inr updates \<Rightarrow>
                   (case applyUpdates rt d a archiveMeta updates of
                      (Inl e, d1) \<Rightarrow> (Inl e, d1)
                    | (Inr results, d1) \<Rightarrow>
                        (let d2 = LevelUtil_update d1 (url a) (url a) (info_version archiveMeta);
                             d3 = fold (emit_updated a archiveMeta) (Set_of results) d2
                         in (Inr (), emit (IndexesUpdated (url a) (info_version archiveMeta)) d3)))))"

subsection \<open>Removing an archive\<close>

text \<open>
  \<^verbatim>\<open>scanArchiveForRecords\<close>: \<^verbatim>\<open>Promise.all\<close> of every table's \<^verbatim>\<open>listRecordFiles\<close>,
  flattened; a match is the index of its table and the record URL.
\<close>

fun listAll :: "table list \<Rightarrow> archive \<Rightarrow> nat \<Rightarrow> js_error + (nat \<times> string) list" where
  "listAll [] a i = Inr []"
| "listAll (t # ts) a i =
     (case listRecordFiles t a of
        Inl e \<Rightarrow> Inl e
      | Inr recordUrls \<Rightarrow>
          (case listAll ts a (Suc i) of
             Inl e \<Rightarrow> Inl e
           | Inr ms \<Rightarrow> Inr (map (Pair i) recordUrls @ ms)))"

definition scanArchiveForRecords :: "db \<Rightarrow> archive \<Rightarrow> js_error + (nat \<times> string) list" where
  "scanArchiveForRecords d a = listAll (tables d) a 0"

text \<open>
  \<^verbatim>\<open>Promise.all(recordMatches.map(match => match.table.level.del(match.recordUrl)))\<close>:
  every delete is started; the result is the first rejection, if any.
\<close>

fun delMatches :: "db \<Rightarrow> (nat \<times> string) list \<Rightarrow> (js_error + unit) \<times> db" where
  "delMatches d [] = (Inr (), d)"
| "delMatches d (m # ms) =
     (case table_del d (fst m) (snd m) of
        Inl e \<Rightarrow> (Inl e, snd (delMatches d ms))
      | Inr d1 \<Rightarrow> delMatches d1 ms)"

definition unindexArchive :: "db \<Rightarrow> archive \<Rightarrow> (js_error + unit) \<times> db" where
  "unindexArchive d a =
     (case scanArchiveForRecords d a of
        Inl e \<Rightarrow> (Inl e, d)
      | Inr recordMatches \<Rightarrow>
          (case delMatches d recordMatches of
             (Inl e, d1) \<Rightarrow> (Inl e, d1)
           | (Inr u, d1) \<Rightarrow> (Inr (), meta_del d1 (url a))))"

subsection \<open>Watching\<close>

text \<open>
  \<^verbatim>\<open>watchArchive\<close> as far as the indexer's state goes: the stream is created unless there
  is one already (\<^verbatim>\<open>archive._loadPromise\<close> is taken as resolved; the listeners act on
  later events of the stream). \<^verbatim>\<open>unwatchArchive\<close> closes and forgets the stream.
\<close>

definition watchArchive :: "db \<Rightarrow> archive \<Rightarrow> archive" where
  "watchArchive d a =
     (if fileEvents a \<noteq> None then a else a\<lparr>fileEvents := Some (tableFilePatterns d)\<rparr>)"

definition unwatchArchive :: "archive \<Rightarrow> archive" where
  "unwatchArchive a = (if fileEvents a \<noteq> None then a\<lparr>fileEvents := None\<rparr> else a)"

definition removeArchive :: "db \<Rightarrow> archive \<Rightarrow> (js_error + unit) \<times> db \<times> archive" where
  "removeArchive d a =
     (case unindexArchive d a of
        (Inl e, d1) \<Rightarrow> (Inl e, d1, a)
      | (Inr u, d1) \<Rightarrow> (Inr (), d1, unwatchArchive a))"

subsection \<open>The retry loop and adding an archive\<close>

text \<open>
  While \<^verbatim>\<open>onFailInitialIndex\<close> sleeps, other tasks change the database and the archive
  becomes reachable or not. A tick is what happens during one sleep: a change of the
  database (its events are not this task's) and a change of the archive. The loop runs
  over the ticks it is given; with none left it is still asleep.
\<close>

type_synonym tick = "(db \<Rightarrow> db) \<times> (archive \<Rightarrow> archive)"

datatype loop_exit = StillWaiting | NotASource | MadeIt | Aborted

text \<open>
  \<^verbatim>\<open>await new Promise(resolve => setTimeout(resolve, 30e3))\<close>: the database at the
  wake-up.
\<close>

definition wake :: "tick \<Rightarrow> db \<Rightarrow> db" where
  "wake t d = (fst t d)\<lparr>trace := trace d @ [Wait 30000]\<rparr>"

fun retryLoop :: "runtime \<Rightarrow> tick list \<Rightarrow> db \<Rightarrow> archive \<Rightarrow> loop_exit \<times> db \<times> archive" where
  "retryLoop rt [] d a = (StillWaiting, d, a)"
| "retryLoop rt (t # ts) d a =
     (let d1 = wake t d;
          a1 = snd t a
      in if \<not> isOpen d1 \<or> url a1 \<notin> archives d1 then (NotASource, d1, a1)
         else
           (case indexArchive rt d1 a1 of
              (Inr u, d2) \<Rightarrow> (MadeIt, d2, a1)
            | (Inl e, d2) \<Rightarrow>
                if err_name e \<noteq> ''TimeoutError'' then (Aborted, d2, a1)
                else retryLoop rt ts d2 a1))"

text \<open>
  \<^verbatim>\<open>onFailInitialIndex\<close>; the result is \<open>None\<close> while the loop has not been left.
  \<^verbatim>\<open>watchArchive\<close> is called without \<^verbatim>\<open>await\<close>, so nothing it rejects with is thrown here.
\<close>

definition onFailInitialIndex ::
  "runtime \<Rightarrow> tick list \<Rightarrow> js_error \<Rightarrow> db \<Rightarrow> archive
     \<Rightarrow> (js_error + unit) option \<times> db \<times> archive" where
  "onFailInitialIndex rt ticks e d a =
     (if err_name e = ''TimeoutError'' then
        (case retryLoop rt ticks (emit (SourceMissing (url a)) d) a of
           (StillWaiting, d1, a1) \<Rightarrow> (None, d1, a1)
         | (NotASource, d1, a1) \<Rightarrow> (Some (Inr ()), d1, a1)
         | (Aborted, d1, a1) \<Rightarrow> (Some (Inr ()), d1, a1)
         | (MadeIt, d1, a1) \<Rightarrow>
             (Some (Inr ()), emit (SourceFound (url a1)) d1, watchArchive d1 a1))
      else (Some (Inr ()), emit (SourceError (url a) e) d, a))"

text \<open>
  \<^verbatim>\<open>addArchive\<close>: the meta record with version 0 is stored, then
  \<^verbatim>\<open>indexArchive(db, archive).then(watchArchive).catch(onFailInitialIndex)\<close> is awaited.
\<close>

definition addArchive ::
  "runtime \<Rightarrow> tick list \<Rightarrow> db \<Rightarrow> archive \<Rightarrow> (js_error + unit) option \<times> db \<times> archive" where
  "addArchive rt ticks d a =
     (case getInfo a of
        Inl e \<Rightarrow> (Some (Inl e), d, a)
      | Inr info \<Rightarrow>
          (let a1 = a\<lparr>isWritable := Some (isOwner info)\<rparr>;
               d1 = meta_put d (url a1)
                      \<lparr>meta_url = url a1, version = 0, meta_isWritable = isWritable a1,
                       meta_localPath = localPath a1\<rparr>
           in case indexArchive rt d1 a1 of
                (Inr u, d2) \<Rightarrow> (Some (Inr ()), d2, watchArchive d2 a1)
              | (Inl e, d2) \<Rightarrow> onFailInitialIndex rt ticks e d2 a1))"

subsection \<open>Vocabulary of the statements\<close>

text \<open>Kinds of events.\<close>

definition is_table_write :: "event \<Rightarrow> bool" where
  "is_table_write e = (case e of TablePut n k v \<Rightarrow> True | TableDel n k \<Rightarrow> True | _ \<Rightarrow> False)"

definition is_meta_write :: "event \<Rightarrow> bool" where
  "is_meta_write e = (case e of MetaPut k m \<Rightarrow> True | MetaDel k \<Rightarrow> True | _ \<Rightarrow> False)"

definition is_signal :: "event \<Rightarrow> bool" where
  "is_signal e = (case e of Emit s \<Rightarrow> True | _ \<Rightarrow> False)"

definition is_index_error :: "event \<Rightarrow> bool" where
  "is_index_error e = (case e of Emit (IndexError u x) \<Rightarrow> True | _ \<Rightarrow> False)"

text \<open>
  What the dispatcher never changes: everything of the database but the contents of the
  table stores and the events.
\<close>

definition table_frame :: "table \<Rightarrow> table" where
  "table_frame t = t\<lparr>level := Map.empty\<rparr>"

definition db_frame :: "db \<Rightarrow> db" where
  "db_frame d = d\<lparr>tables := map table_frame (tables d), trace := []\<rparr>"

text \<open>
  A sequence of indexing passes on one database; each pass is given the archive handle
  as it is at that time.
\<close>

fun indexPasses :: "runtime \<Rightarrow> db \<Rightarrow> archive list \<Rightarrow> db" where
  "indexPasses rt d [] = d"
| "indexPasses rt d (a # as) = indexPasses rt (snd (indexArchive rt d a)) as"

text \<open>A path of an archive: it begins with a slash.\<close>

definition slash_path :: "string \<Rightarrow> bool" where
  "slash_path p = (take 1 p = ''/'')"

text \<open>The keys that a list of events writes to the table stores, in order.\<close>

definition write_key :: "event \<Rightarrow> string list" where
  "write_key e = (case e of TablePut n k v \<Rightarrow> [k] | TableDel n k \<Rightarrow> [k] | _ \<Rightarrow> [])"

definition written_keys :: "event list \<Rightarrow> string list" where
  "written_keys evs = concat (map write_key evs)"

subsection \<open>A scenario\<close>

text \<open>
  One table \<^verbatim>\<open>foo\<close> that owns \<^verbatim>\<open>/tables/foo/*\<close> and accepts objects, and an archive
  \<^verbatim>\<open>dat://a\<close> whose only change, at version 1, puts \<^verbatim>\<open>/tables/foo/1.json\<close> with the
  content \<^verbatim>\<open>{}\<close>; the file \<^verbatim>\<open>/tables/foo/bad.json\<close> can be read and holds
  \<^verbatim>\<open>not json\<close>. The parser of the scenario agrees with \<^verbatim>\<open>JSON.parse\<close> on the contents
  that occur: \<^verbatim>\<open>{}\<close> is the empty object, \<^verbatim>\<open>not json\<close> is a syntax error.
\<close>

definition foo_table :: table where
  "foo_table =
     \<lparr>name = ''foo'',
      isRecordFile = (\<lambda>p. take 12 p = ''/tables/foo/''),
      validator = Some (\<lambda>r. Inr (JBool (case r of JObject kvs \<Rightarrow> True | _ \<Rightarrow> False))),
      preprocess = None,
      listRecordFiles = (\<lambda>a. Inr [url a @ ''/tables/foo/1.json'']),
      level = Map.empty,
      level_error = None\<rparr>"

definition scenario_db :: db where
  "scenario_db =
     \<lparr>isOpen = True, isBeingOpened = False, db_level = True, tables = [foo_table],
      indexMetaLevel = Map.empty, archives = {''dat://a''},
      tableFilePatterns = (\<lambda>p. take 8 p = ''/tables/''), trace = []\<rparr>"

definition scenario_archive :: "nat \<Rightarrow> archive" where
  "scenario_archive v =
     \<lparr>url = ''dat://a'', isWritable = None, localPath = None, fileEvents = None,
      getInfo = Inr \<lparr>info_version = v, isOwner = True\<rparr>,
      history = (\<lambda>start end.
        Inr (if start \<le> 1 \<and> 1 < end
             then [\<lparr>path = ''/tables/foo/1.json'', utype = ''put'', update_version = 1\<rparr>]
             else [])),
      readFile = (\<lambda>p. if p = ''/tables/foo/1.json'' then Inr ''{}''
                      else if p = ''/tables/foo/bad.json'' then Inr ''not json''
                      else Inl (JsError ''NotFoundError'' p))\<rparr>"

definition scenario_runtime :: runtime where
  "scenario_runtime =
     \<lparr>JSON_parse = (\<lambda>s. if s = ''{}'' then Inr (JObject [])
                         else Inl (JsError ''SyntaxError'' s)),
      Date_now = 1000\<rparr>"

text \<open>The scenario with the store of \<^verbatim>\<open>foo\<close> rejecting every write.\<close>

definition broken_db :: db where
  "broken_db = scenario_db\<lparr>tables := [foo_table\<lparr>level_error := Some (JsError ''WriteError'' ''closed'')\<rparr>]\<rparr>"

text \<open>A history entry that puts a file.\<close>

definition put_update :: "string \<Rightarrow> nat \<Rightarrow> update" where
  "put_update p v = \<lparr>path = p, utype = ''put'', update_version = v\<rparr>"

text \<open>
  The scenario with an entry already stored for the file, and a validator that rejects
  every record, or a preprocessor that returns a new record.
\<close>

definition stale_entry :: indexed_record where
  "stale_entry =
     \<lparr>entry_url = ''dat://a/tables/foo/1.json'', origin = ''dat://a'', indexedAt = 500,
      entry_record = JObject [(''old'', JBool True)]\<rparr>"

definition rejecting_db :: db where
  "rejecting_db =
     scenario_db\<lparr>tables :=
       [foo_table\<lparr>validator := Some (\<lambda>r. Inr (JBool False)),
                  level := [''dat://a/tables/foo/1.json'' \<mapsto> stale_entry]\<rparr>]\<rparr>"

definition preprocessing_db :: db where
  "preprocessing_db =
     scenario_db\<lparr>tables :=
       [foo_table\<lparr>preprocess := Some (\<lambda>r. Inr (JObject [(''n'', JNumber 1)])),
                  level := [''dat://a/tables/foo/1.json'' \<mapsto> stale_entry]\<rparr>]\<rparr>"

text \<open>
  The scenario after the file has been removed at version 2: the entry is still stored,
  the archive no longer has the file, and the history entry of the removal carries the
  given type.
\<close>

definition stale_db :: db where
  "stale_db =
     scenario_db\<lparr>tables := [foo_table\<lparr>level := [''dat://a/tables/foo/1.json'' \<mapsto> stale_entry]\<rparr>]\<rparr>"

definition emptied_archive :: archive where
  "emptied_archive =
     (scenario_archive 2)\<lparr>readFile := (\<lambda>p. Inl (JsError ''NotFoundError'' p))\<rparr>"

definition removal :: "string \<Rightarrow> update" where
  "removal ty = \<lparr>path = ''/tables/foo/1.json'', utype = ty, update_version = 2\<rparr>"

text \<open>
  An archive at version 4 whose history changes \<^verbatim>\<open>/tables/foo/1.json\<close> twice, and a file
  that no table pattern matches once.
\<close>

definition busy_history :: "update list" where
  "busy_history =
     [put_update ''/tables/foo/1.json'' 1,
      put_update ''/readme.md'' 2,
      put_update ''/tables/foo/2.json'' 3,
      \<lparr>path = ''/tables/foo/1.json'', utype = ''del'', update_version = 4\<rparr>]"

definition busy_archive :: archive where
  "busy_archive =
     (scenario_archive 4)\<lparr>history := (\<lambda>start end.
        Inr (filter (\<lambda>u. start \<le> update_version u \<and> update_version u < end) busy_history))\<rparr>"

text \<open>The scenario after \<^verbatim>\<open>addArchive\<close> at version 1: the file is indexed, the archive watched.\<close>

definition watched_archive :: archive where
  "watched_archive = (scenario_archive 1)\<lparr>fileEvents := Some (tableFilePatterns scenario_db)\<rparr>"

definition indexed_db :: db where
  "indexed_db = fst (snd (addArchive scenario_runtime [] scenario_db (scenario_archive 1)))"

text \<open>The signals about the source of an archive.\<close>

definition is_source_signal :: "event \<Rightarrow> bool" where
  "is_source_signal e =
     (case e of
        Emit (SourceMissing u) \<Rightarrow> True
      | Emit (SourceFound u) \<Rightarrow> True
      | Emit (SourceError u x) \<Rightarrow> True
      | _ \<Rightarrow> False)"

text \<open>
  The scenario with the archive out of reach (\<^verbatim>\<open>getInfo\<close> times out), and what can happen
  during one sleep of the retry loop: nothing, the archive is taken out of
  \<^verbatim>\<open>db._archives\<close>, the archive is in reach again, or it fails with another error.
\<close>

definition timeout_error :: js_error where
  "timeout_error = JsError ''TimeoutError'' ''timed out''"

definition other_error :: js_error where
  "other_error = JsError ''Error'' ''not an archive''"

definition unreachable_archive :: archive where
  "unreachable_archive = (scenario_archive 1)\<lparr>getInfo := Inl timeout_error\<rparr>"

definition still_unreachable :: tick where
  "still_unreachable = (\<lambda>d. d, \<lambda>a. a)"

definition no_longer_managed :: tick where
  "no_longer_managed = (\<lambda>d. d\<lparr>archives := archives d - {''dat://a''}\<rparr>, \<lambda>a. a)"

definition reachable_again :: tick where
  "reachable_again = (\<lambda>d. d, \<lambda>a. a\<lparr>getInfo := Inr \<lparr>info_version = 1, isOwner = True\<rparr>\<rparr>)"

definition fails_otherwise :: tick where
  "fails_otherwise = (\<lambda>d. d, \<lambda>a. a\<lparr>getInfo := Inl other_error\<rparr>)"

section \<open>Properties\<close>

subsection \<open>The dispatcher keeps the frame\<close>

lemma firstRecordTable_Some:
  "firstRecordTable ts p = Some i \<Longrightarrow>
     i < length ts \<and> isRecordFile (ts ! i) p \<and> (\<forall>j<i. \<not> isRecordFile (ts ! j) p)"
proof (induction ts arbitrary: i)
  case Nil
  then show ?case by simp
next
  case (Cons t ts)
  show ?case
  proof (cases "isRecordFile t p")
    case True
    with Cons.prems show ?thesis by simp
  next
    case False
    with Cons.prems obtain k where k: "firstRecordTable ts p = Some k" "i = Suc k"
      by auto
    from Cons.IH[OF k(1)] False k(2) show ?thesis
      by (auto simp: nth_Cons split: nat.splits)
  qed
qed

lemma firstRecordTable_None:
  "firstRecordTable ts p = None \<longleftrightarrow> (\<forall>t\<in>set ts. \<not> isRecordFile t p)"
  by (induction ts) auto

lemma table_put_Inr:
  "table_put d i k v = Inr d' \<Longrightarrow>
     d' = d\<lparr>tables := (tables d)[i := (tables d ! i)\<lparr>level := (level (tables d ! i))(k \<mapsto> v)\<rparr>],
            trace := trace d @ [TablePut (name (tables d ! i)) k v]\<rparr> \<and> level_error (tables d ! i) = None"
  by (auto simp: table_put_def Let_def split: option.splits)

lemma table_del_Inr:
  "table_del d i k = Inr d' \<Longrightarrow>
     d' = d\<lparr>tables := (tables d)[i := (tables d ! i)\<lparr>level := (level (tables d ! i))(k := None)\<rparr>],
            trace := trace d @ [TableDel (name (tables d ! i)) k]\<rparr> \<and> level_error (tables d ! i) = None"
  by (auto simp: table_del_def Let_def split: option.splits)

lemma readAndIndexFile_returns:
  "\<exists>r. fst (readAndIndexFile rt d a m p) = Inr r"
  by (simp add: readAndIndexFile_def split: sum.splits prod.splits)

lemma unindexFile_returns:
  "\<exists>r. fst (unindexFile d a p) = Inr r"
  by (simp add: unindexFile_def split: sum.splits prod.splits)

lemma readAndIndexFile_try_touched:
  "readAndIndexFile_try rt d a p = Inr (r, d') \<Longrightarrow>
     (r = RFalse \<and> d' = d \<and> firstRecordTable (tables d) p = None) \<or>
     (\<exists>i. firstRecordTable (tables d) p = Some i \<and> r = TableName (name (tables d ! i)))"
  by (auto simp: readAndIndexFile_try_def Let_def split: sum.splits option.splits if_splits)

lemma unindexFile_try_touched:
  "unindexFile_try d a p = Inr (r, d') \<Longrightarrow>
     (r = RFalse \<and> d' = d \<and> firstRecordTable (tables d) p = None) \<or>
     (\<exists>i. firstRecordTable (tables d) p = Some i \<and> r = TableName (name (tables d ! i)))"
  by (auto simp: unindexFile_try_def Let_def split: sum.splits option.splits if_splits)

lemma db_frame_fields:
  assumes "db_frame d' = db_frame d"
  shows "isOpen d' = isOpen d" "isBeingOpened d' = isBeingOpened d" "db_level d' = db_level d"
    "indexMetaLevel d' = indexMetaLevel d" "archives d' = archives d"
    "tableFilePatterns d' = tableFilePatterns d"
    "map table_frame (tables d') = map table_frame (tables d)"
proof -
  have "isOpen (db_frame d') = isOpen (db_frame d)" using assms by simp
  then show "isOpen d' = isOpen d" by (simp add: db_frame_def)
  have "isBeingOpened (db_frame d') = isBeingOpened (db_frame d)" using assms by simp
  then show "isBeingOpened d' = isBeingOpened d" by (simp add: db_frame_def)
  have "db_level (db_frame d') = db_level (db_frame d)" using assms by simp
  then show "db_level d' = db_level d" by (simp add: db_frame_def)
  have "indexMetaLevel (db_frame d') = indexMetaLevel (db_frame d)" using assms by simp
  then show "indexMetaLevel d' = indexMetaLevel d" by (simp add: db_frame_def)
  have "archives (db_frame d') = archives (db_frame d)" using assms by simp
  then show "archives d' = archives d" by (simp add: db_frame_def)
  have "tableFilePatterns (db_frame d') = tableFilePatterns (db_frame d)" using assms by simp
  then show "tableFilePatterns d' = tableFilePatterns d" by (simp add: db_frame_def)
  have "tables (db_frame d') = tables (db_frame d)" using assms by simp
  then show "map table_frame (tables d') = map table_frame (tables d)" by (simp add: db_frame_def)
qed

lemma table_frame_fields:
  "name (table_frame t) = name t" "isRecordFile (table_frame t) = isRecordFile t"
  "validator (table_frame t) = validator t" "preprocess (table_frame t) = preprocess t"
  "listRecordFiles (table_frame t) = listRecordFiles t" "level_error (table_frame t) = level_error t"
  by (simp_all add: table_frame_def)

lemma table_frame_level_upd [simp]: "table_frame (t\<lparr>level := l\<rparr>) = table_frame t"
  by (simp add: table_frame_def)

lemma frames_length:
  "map table_frame ts' = map table_frame ts \<Longrightarrow> length ts' = length ts"
  by (metis length_map)

lemma frames_nth:
  assumes "map table_frame ts' = map table_frame ts" "i < length ts"
  shows "table_frame (ts' ! i) = table_frame (ts ! i)"
proof -
  have "length ts' = length ts" using assms(1) by (rule frames_length)
  then have "map table_frame ts' ! i = table_frame (ts' ! i)" using assms(2) by simp
  moreover have "map table_frame ts ! i = table_frame (ts ! i)" using assms(2) by simp
  ultimately show ?thesis using assms(1) by simp
qed

lemma firstRecordTable_frame:
  "firstRecordTable (map table_frame ts) p = firstRecordTable ts p"
  by (induction ts) (simp_all add: table_frame_fields)

lemma firstRecordTable_frames:
  "map table_frame ts' = map table_frame ts \<Longrightarrow> firstRecordTable ts' p = firstRecordTable ts p"
  by (metis firstRecordTable_frame)

lemma map_frame_list_update:
  "map table_frame (ts[i := (ts ! i)\<lparr>level := l\<rparr>]) = map table_frame ts"
proof (cases "i < length ts")
  case True
  then show ?thesis by (simp add: map_update list_update_same_conv)
next
  case False
  then have "ts[i := (ts ! i)\<lparr>level := l\<rparr>] = ts" by (simp add: list_update_beyond)
  then show ?thesis by simp
qed

lemma db_frame_emit [simp]: "db_frame (emit s d) = db_frame d"
  by (simp add: emit_def db_frame_def)

lemma db_frame_table_put: "table_put d i k v = Inr d' \<Longrightarrow> db_frame d' = db_frame d"
  by (drule table_put_Inr) (simp add: db_frame_def map_frame_list_update)

lemma db_frame_table_del: "table_del d i k = Inr d' \<Longrightarrow> db_frame d' = db_frame d"
  by (drule table_del_Inr) (simp add: db_frame_def map_frame_list_update)

lemma db_frame_readAndIndexFile_try:
  "readAndIndexFile_try rt d a p = Inr (r, d') \<Longrightarrow> db_frame d' = db_frame d"
  by (auto simp: readAndIndexFile_try_def Let_def db_frame_table_put db_frame_table_del
      split: sum.splits option.splits if_splits)

lemma db_frame_readAndIndexFile: "db_frame (snd (readAndIndexFile rt d a m p)) = db_frame d"
  by (auto simp: readAndIndexFile_def db_frame_readAndIndexFile_try split: sum.splits)

lemma db_frame_unindexFile: "db_frame (snd (unindexFile d a p)) = db_frame d"
  by (auto simp: unindexFile_def unindexFile_try_def Let_def db_frame_table_del
      split: sum.splits option.splits)

lemma db_frame_applyUpdate: "db_frame (snd (applyUpdate rt d a m u)) = db_frame d"
  by (simp add: applyUpdate_def db_frame_readAndIndexFile db_frame_unindexFile)

lemma applyUpdate_returns: "\<exists>r. fst (applyUpdate rt d a m u) = Inr r"
  by (simp add: applyUpdate_def readAndIndexFile_returns unindexFile_returns)

lemma db_frame_applyUpdates: "db_frame (snd (applyUpdates rt d a m us)) = db_frame d"
proof (induction us arbitrary: d)
  case Nil
  show ?case by simp
next
  case (Cons pu us)
  obtain r d1 where 1: "applyUpdate rt d a m (snd pu) = (r, d1)" by fastforce
  obtain rs d2 where 2: "applyUpdates rt d1 a m us = (rs, d2)" by fastforce
  have "db_frame d1 = db_frame d" using db_frame_applyUpdate[of rt d a m "snd pu"] 1 by simp
  moreover have "db_frame d2 = db_frame d1" using Cons.IH[of d1] 2 by simp
  ultimately show ?case using 1 2 by simp
qed

lemma applyUpdates_returns: "\<exists>rs. fst (applyUpdates rt d a m us) = Inr rs"
proof (induction us arbitrary: d)
  case Nil
  show ?case by simp
next
  case (Cons pu us)
  obtain r d1 where 1: "applyUpdate rt d a m (snd pu) = (r, d1)" by fastforce
  obtain rs d2 where 2: "applyUpdates rt d1 a m us = (rs, d2)" by fastforce
  obtain x where "r = Inr x" using applyUpdate_returns[of rt d a m "snd pu"] 1 by auto
  moreover obtain xs where "rs = Inr xs" using Cons.IH[of d1] 2 by auto
  ultimately show ?case using 1 2 by simp
qed

lemma indexArchive_closed:
  "\<not> isOpen d \<and> \<not> isBeingOpened d \<Longrightarrow> indexArchive rt d a = (Inr (), d)"
  by (simp add: indexArchive_def)

lemma indexArchive_nolevel: "\<not> db_level d \<Longrightarrow> indexArchive rt d a = (Inr (), d)"
  by (simp add: indexArchive_def)

lemma indexArchive_getInfo_fails:
  "getInfo a = Inl e \<Longrightarrow> snd (indexArchive rt d a) = d"
  by (simp add: indexArchive_def)

lemma indexArchive_noop:
  "getInfo a = Inr info \<Longrightarrow> info_version info \<le> stored_watermark d (url a) \<Longrightarrow>
     indexArchive rt d a = (Inr (), d)"
  by (simp add: indexArchive_def)

lemma indexArchive_history_fails:
  "getInfo a = Inr info \<Longrightarrow>
   scanArchiveHistoryForUpdates d a (stored_watermark d (url a) + 1) (info_version info + 1) = Inl e \<Longrightarrow>
   snd (indexArchive rt d a) = d"
  by (simp add: indexArchive_def)

lemma indexArchive_proceeds:
  assumes "isOpen d \<or> isBeingOpened d" "db_level d" "getInfo a = Inr info"
    "stored_watermark d (url a) < info_version info"
    "scanArchiveHistoryForUpdates d a (stored_watermark d (url a) + 1) (info_version info + 1) = Inr us"
    "applyUpdates rt d a info us = (Inr rs, d1)"
  shows "indexArchive rt d a =
      (Inr (), emit (IndexesUpdated (url a) (info_version info))
              (fold (emit_updated a info) (Set_of rs)
                 (LevelUtil_update d1 (url a) (url a) (info_version info))))"
proof -
  have "\<not> info_version info \<le> stored_watermark d (url a)" using assms(4) by simp
  then show ?thesis
    unfolding indexArchive_def using assms(1,2,3,5,6)
    by (cases "isOpen d") (simp_all add: Let_def)
qed

lemma indexArchive_cases:
  assumes "indexArchive rt d a = (res, d')"
  shows "d' = d \<or>
    (\<exists>info us rs d1. getInfo a = Inr info \<and> stored_watermark d (url a) < info_version info \<and>
       (isOpen d \<or> isBeingOpened d) \<and> db_level d \<and>
       scanArchiveHistoryForUpdates d a (stored_watermark d (url a) + 1) (info_version info + 1) = Inr us \<and>
       applyUpdates rt d a info us = (Inr rs, d1) \<and> res = Inr () \<and>
       d' = emit (IndexesUpdated (url a) (info_version info))
              (fold (emit_updated a info) (Set_of rs)
                 (LevelUtil_update d1 (url a) (url a) (info_version info))))"
proof -
  have snd: "snd (indexArchive rt d a) = d'" and fst: "fst (indexArchive rt d a) = res"
    using assms by simp_all
  consider (closed) "\<not> isOpen d \<and> \<not> isBeingOpened d" | (nolevel) "\<not> db_level d"
    | (err) e where "getInfo a = Inl e"
    | (go) info where "isOpen d \<or> isBeingOpened d" "db_level d" "getInfo a = Inr info"
    by (cases "getInfo a") blast+
  then show ?thesis
  proof cases
    case closed
    then show ?thesis using snd by (simp add: indexArchive_closed)
  next
    case nolevel
    then show ?thesis using snd by (simp add: indexArchive_nolevel)
  next
    case err
    then show ?thesis using snd by (simp add: indexArchive_getInfo_fails)
  next
    case go
    show ?thesis
    proof (cases "info_version info \<le> stored_watermark d (url a)")
      case True
      then show ?thesis using snd go(3) by (simp add: indexArchive_noop)
    next
      case False
      show ?thesis
      proof (cases "scanArchiveHistoryForUpdates d a (stored_watermark d (url a) + 1) (info_version info + 1)")
        case (Inl e)
        then show ?thesis using snd go(3) indexArchive_history_fails[of a info d e rt] by simp
      next
        case (Inr us)
        obtain r d1 where ap: "applyUpdates rt d a info us = (r, d1)" by fastforce
        obtain rs where r: "r = Inr rs" using applyUpdates_returns[of rt d a info us] ap by auto
        have lt: "stored_watermark d (url a) < info_version info" using False by simp
        have "indexArchive rt d a =
          (Inr (), emit (IndexesUpdated (url a) (info_version info))
              (fold (emit_updated a info) (Set_of rs)
                 (LevelUtil_update d1 (url a) (url a) (info_version info))))"
          using indexArchive_proceeds[OF go(1,2,3) lt Inr] ap r by simp
        then have "res = Inr () \<and> d' = emit (IndexesUpdated (url a) (info_version info))
              (fold (emit_updated a info) (Set_of rs)
                 (LevelUtil_update d1 (url a) (url a) (info_version info)))"
          using assms by simp
        then show ?thesis using go lt Inr ap r by blast
      qed
    qed
  qed
qed


lemma db_frame_fold_emit_updated [simp]:
  "db_frame (fold (emit_updated a info) rs d) = db_frame d"
  by (induction rs arbitrary: d) (simp_all add: emit_updated_def split: touched.splits)

lemma indexMetaLevel_fold_emit_updated [simp]:
  "indexMetaLevel (fold (emit_updated a info) rs d) = indexMetaLevel d"
  using db_frame_fields(4)[OF db_frame_fold_emit_updated] .

lemma indexMetaLevel_emit [simp]: "indexMetaLevel (emit s d) = indexMetaLevel d"
  by (simp add: emit_def)

lemma stored_watermark_LevelUtil_update:
  "stored_watermark (LevelUtil_update d k u v) k' = (if k' = k then v else stored_watermark d k')"
  by (simp add: stored_watermark_def LevelUtil_update_def meta_put_def split: option.splits)

lemma stored_watermark_cong:
  "indexMetaLevel d' = indexMetaLevel d \<Longrightarrow> stored_watermark d' u = stored_watermark d u"
  by (simp add: stored_watermark_def)

lemma stored_watermark_after_pass:
  assumes "indexArchive rt d a = (res, d')"
  shows "stored_watermark d' u = stored_watermark d u \<or>
     (\<exists>info. getInfo a = Inr info \<and> u = url a \<and> stored_watermark d u < info_version info \<and>
        stored_watermark d' u = info_version info)"
proof -
  from indexArchive_cases[OF assms] show ?thesis
  proof
    assume "d' = d" then show ?thesis by simp
  next
    assume "\<exists>info us rs d1. getInfo a = Inr info \<and> stored_watermark d (url a) < info_version info \<and>
       (isOpen d \<or> isBeingOpened d) \<and> db_level d \<and>
       scanArchiveHistoryForUpdates d a (stored_watermark d (url a) + 1) (info_version info + 1) = Inr us \<and>
       applyUpdates rt d a info us = (Inr rs, d1) \<and> res = Inr () \<and>
       d' = emit (IndexesUpdated (url a) (info_version info))
              (fold (emit_updated a info) (Set_of rs)
                 (LevelUtil_update d1 (url a) (url a) (info_version info)))"
    then obtain info us rs d1 where h: "getInfo a = Inr info"
      "stored_watermark d (url a) < info_version info"
      "applyUpdates rt d a info us = (Inr rs, d1)"
      "d' = emit (IndexesUpdated (url a) (info_version info))
              (fold (emit_updated a info) (Set_of rs)
                 (LevelUtil_update d1 (url a) (url a) (info_version info)))"
      by blast
    have "db_frame d1 = db_frame d" using db_frame_applyUpdates[of rt d a info us] h(3) by simp
    then have "indexMetaLevel d1 = indexMetaLevel d" by (rule db_frame_fields(4))
    then have m: "stored_watermark d1 u = stored_watermark d u"
      by (rule stored_watermark_cong)
    have "stored_watermark d' u = (if u = url a then info_version info else stored_watermark d1 u)"
    proof -
      have "indexMetaLevel d' =
          indexMetaLevel (LevelUtil_update d1 (url a) (url a) (info_version info))"
        unfolding h(4) by simp
      then have "stored_watermark d' u =
          stored_watermark (LevelUtil_update d1 (url a) (url a) (info_version info)) u"
        by (rule stored_watermark_cong)
      then show ?thesis by (simp add: stored_watermark_LevelUtil_update)
    qed
    then show ?thesis using h(1,2) m by auto
  qed
qed

lemma watermark_step_mono:
  "stored_watermark d u \<le> stored_watermark (snd (indexArchive rt d a)) u"
proof -
  obtain res d' where p: "indexArchive rt d a = (res, d')" by fastforce
  from stored_watermark_after_pass[OF p, of u] have "stored_watermark d u \<le> stored_watermark d' u"
    by (elim disjE exE conjE) simp_all
  then show ?thesis using p by simp
qed




lemma watermark_passes_mono:
  "stored_watermark d u \<le> stored_watermark (indexPasses rt d as) u"
proof (induction as arbitrary: d)
  case Nil
  show ?case by simp
next
  case (Cons a as)
  have "stored_watermark d u \<le> stored_watermark (snd (indexArchive rt d a)) u"
    by (rule watermark_step_mono)
  also have "\<dots> \<le> stored_watermark (indexPasses rt (snd (indexArchive rt d a)) as) u"
    by (rule Cons.IH)
  finally show ?case by simp
qed


lemma indexPasses_append:
  "indexPasses rt d (as1 @ as2) = indexPasses rt (indexPasses rt d as1) as2"
  by (induction as1 arbitrary: d) simp_all

lemma watermark_step_bounded:
  assumes "stored_watermark d u \<le> V"
    and "url a = u \<longrightarrow> (\<forall>i. getInfo a = Inr i \<longrightarrow> info_version i \<le> V)"
  shows "stored_watermark (snd (indexArchive rt d a)) u \<le> V"
proof -
  obtain res d' where p: "indexArchive rt d a = (res, d')" by fastforce
  from stored_watermark_after_pass[OF p, of u] have "stored_watermark d' u \<le> V"
  proof (elim disjE exE conjE)
    assume "stored_watermark d' u = stored_watermark d u"
    then show ?thesis using assms(1) by simp
  next
    fix info
    assume "getInfo a = Inr info" "u = url a" "stored_watermark d' u = info_version info"
    then show ?thesis using assms(2) by simp
  qed
  then show ?thesis using p by simp
qed

lemma watermark_passes_bounded:
  "stored_watermark d u \<le> V \<Longrightarrow>
   (\<forall>a\<in>set as. url a = u \<longrightarrow> (\<forall>i. getInfo a = Inr i \<longrightarrow> info_version i \<le> V)) \<Longrightarrow>
   stored_watermark (indexPasses rt d as) u \<le> V"
proof (induction as arbitrary: d)
  case Nil
  then show ?case by simp
next
  case (Cons a as)
  have 1: "url a = u \<longrightarrow> (\<forall>i. getInfo a = Inr i \<longrightarrow> info_version i \<le> V)"
    using Cons.prems(2) by simp
  have 2: "\<forall>a\<in>set as. url a = u \<longrightarrow> (\<forall>i. getInfo a = Inr i \<longrightarrow> info_version i \<le> V)"
    using Cons.prems(2) by simp
  have "stored_watermark (snd (indexArchive rt d a)) u \<le> V"
    using watermark_step_bounded[OF Cons.prems(1) 1] .
  from Cons.IH[OF this 2] show ?case by simp
qed

lemma trace_readAndIndexFile:
  "\<exists>evs. trace (snd (readAndIndexFile rt d a m p)) = trace d @ evs \<and>
     (\<forall>e\<in>set evs. is_table_write e \<or> is_index_error e)"
proof (cases "readAndIndexFile_try rt d a p")
  case (Inl e)
  then show ?thesis
    by (simp add: readAndIndexFile_def emit_def is_index_error_def)
next
  case (Inr rd)
  obtain r d' where rd: "rd = (r, d')" by fastforce
  have "\<exists>evs. trace d' = trace d @ evs \<and> (\<forall>e\<in>set evs. is_table_write e \<or> is_index_error e)"
    using Inr unfolding rd
    by (auto simp: readAndIndexFile_try_def Let_def is_table_write_def
        dest!: table_put_Inr table_del_Inr split: sum.splits option.splits if_splits)
  then show ?thesis using Inr rd by (simp add: readAndIndexFile_def)
qed

lemma trace_unindexFile:
  "\<exists>evs. trace (snd (unindexFile d a p)) = trace d @ evs \<and>
     (\<forall>e\<in>set evs. is_table_write e \<or> is_index_error e)"
  by (auto simp: unindexFile_def unindexFile_try_def Let_def is_table_write_def
        dest!: table_del_Inr split: sum.splits option.splits)

lemma trace_applyUpdate:
  "\<exists>evs. trace (snd (applyUpdate rt d a m u)) = trace d @ evs \<and>
     (\<forall>e\<in>set evs. is_table_write e \<or> is_index_error e)"
  by (simp add: applyUpdate_def trace_readAndIndexFile trace_unindexFile)

lemma trace_applyUpdates:
  "\<exists>evs. trace (snd (applyUpdates rt d a m us)) = trace d @ evs \<and>
     (\<forall>e\<in>set evs. is_table_write e \<or> is_index_error e)"
proof (induction us arbitrary: d)
  case Nil
  show ?case by simp
next
  case (Cons pu us)
  obtain r d1 where 1: "applyUpdate rt d a m (snd pu) = (r, d1)" by fastforce
  obtain rs d2 where 2: "applyUpdates rt d1 a m us = (rs, d2)" by fastforce
  obtain evs1 where e1: "trace d1 = trace d @ evs1"
    "\<forall>e\<in>set evs1. is_table_write e \<or> is_index_error e"
    using trace_applyUpdate[of rt d a m "snd pu"] 1 by auto
  obtain evs2 where e2: "trace d2 = trace d1 @ evs2"
    "\<forall>e\<in>set evs2. is_table_write e \<or> is_index_error e"
    using Cons.IH[of d1] 2 by auto
  have "trace d2 = trace d @ (evs1 @ evs2)" using e1(1) e2(1) by simp
  moreover have "\<forall>e\<in>set (evs1 @ evs2). is_table_write e \<or> is_index_error e"
    using e1(2) e2(2) by auto
  ultimately have "\<exists>evs. trace d2 = trace d @ evs \<and>
     (\<forall>e\<in>set evs. is_table_write e \<or> is_index_error e)" by blast
  then show ?case using 1 2 by simp
qed

lemma trace_fold_emit_updated:
  "\<exists>sigs. trace (fold (emit_updated a info) rs d) = trace d @ sigs \<and> (\<forall>e\<in>set sigs. is_signal e)"
proof (induction rs arbitrary: d)
  case Nil
  show ?case by simp
next
  case (Cons r rs)
  have "\<exists>s1. trace (emit_updated a info r d) = trace d @ s1 \<and> (\<forall>e\<in>set s1. is_signal e)"
    by (simp add: emit_updated_def emit_def is_signal_def split: touched.splits)
  then obtain s1 where s1: "trace (emit_updated a info r d) = trace d @ s1" "\<forall>e\<in>set s1. is_signal e"
    by blast
  obtain s2 where s2: "trace (fold (emit_updated a info) rs (emit_updated a info r d)) =
      trace (emit_updated a info r d) @ s2" "\<forall>e\<in>set s2. is_signal e"
    using Cons.IH by blast
  have "trace (fold (emit_updated a info) (r # rs) d) = trace d @ (s1 @ s2)"
    using s1(1) s2(1) by simp
  moreover have "\<forall>e\<in>set (s1 @ s2). is_signal e" using s1(2) s2(2) by auto
  ultimately show ?case by blast
qed

lemma trace_pass:
  assumes "indexArchive rt d a = (res, d')"
  shows "d' = d \<or>
    (\<exists>info evs m sigs. getInfo a = Inr info \<and> stored_watermark d (url a) < info_version info \<and>
       trace d' = trace d @ evs @ [MetaPut (url a) m] @ sigs \<and>
       version m = info_version info \<and> indexMetaLevel d' (url a) = Some m \<and>
       (\<forall>e\<in>set evs. is_table_write e \<or> is_index_error e) \<and> (\<forall>e\<in>set sigs. is_signal e))"
proof -
  from indexArchive_cases[OF assms] show ?thesis
  proof
    assume "d' = d" then show ?thesis by simp
  next
    assume "\<exists>info us rs d1. getInfo a = Inr info \<and> stored_watermark d (url a) < info_version info \<and>
       (isOpen d \<or> isBeingOpened d) \<and> db_level d \<and>
       scanArchiveHistoryForUpdates d a (stored_watermark d (url a) + 1) (info_version info + 1) = Inr us \<and>
       applyUpdates rt d a info us = (Inr rs, d1) \<and> res = Inr () \<and>
       d' = emit (IndexesUpdated (url a) (info_version info))
              (fold (emit_updated a info) (Set_of rs)
                 (LevelUtil_update d1 (url a) (url a) (info_version info)))"
    then obtain info us rs d1 where h: "getInfo a = Inr info"
      "stored_watermark d (url a) < info_version info"
      "applyUpdates rt d a info us = (Inr rs, d1)"
      "d' = emit (IndexesUpdated (url a) (info_version info))
              (fold (emit_updated a info) (Set_of rs)
                 (LevelUtil_update d1 (url a) (url a) (info_version info)))"
      by blast
    define m where "m = (case indexMetaLevel d1 (url a) of
          None \<Rightarrow> \<lparr>meta_url = url a, version = info_version info, meta_isWritable = None,
                    meta_localPath = None\<rparr>
        | Some m0 \<Rightarrow> m0\<lparr>meta_url := url a, version := info_version info\<rparr>)"
    define d2 where "d2 = LevelUtil_update d1 (url a) (url a) (info_version info)"
    obtain evs where evs: "trace d1 = trace d @ evs"
      "\<forall>e\<in>set evs. is_table_write e \<or> is_index_error e"
      using trace_applyUpdates[of rt d a info us] h(3) by auto
    have d2: "trace d2 = trace d1 @ [MetaPut (url a) m]" "indexMetaLevel d2 (url a) = Some m"
      by (simp_all add: d2_def m_def LevelUtil_update_def meta_put_def)
    have vm: "version m = info_version info" by (simp add: m_def split: option.splits)
    obtain s1 where s1: "trace (fold (emit_updated a info) (Set_of rs) d2) = trace d2 @ s1"
      "\<forall>e\<in>set s1. is_signal e"
      using trace_fold_emit_updated by blast
    have "trace d' = trace d @ evs @ [MetaPut (url a) m] @
        (s1 @ [Emit (IndexesUpdated (url a) (info_version info))])"
      unfolding h(4) d2_def[symmetric] using s1(1) d2(1) evs(1) by (simp add: emit_def)
    moreover have "\<forall>e\<in>set (s1 @ [Emit (IndexesUpdated (url a) (info_version info))]). is_signal e"
      using s1(2) by (simp add: is_signal_def)
    moreover have "indexMetaLevel d' (url a) = Some m"
      unfolding h(4) d2_def[symmetric] using d2(2) by simp
    ultimately show ?thesis using h(1,2) vm evs(2) by blast
  qed
qed

lemma pass_twice:
  "indexArchive rt (snd (indexArchive rt d a)) a = (fst (indexArchive rt d a), snd (indexArchive rt d a))
   \<or> indexArchive rt (snd (indexArchive rt d a)) a = (Inr (), snd (indexArchive rt d a))"
proof -
  obtain res d' where p: "indexArchive rt d a = (res, d')" by fastforce
  from trace_pass[OF p] have "indexArchive rt d' a = (res, d') \<or> indexArchive rt d' a = (Inr (), d')"
  proof (elim disjE exE conjE)
    assume "d' = d"
    then show ?thesis using p by simp
  next
    fix info evs m sigs
    assume h: "getInfo a = Inr info" "version m = info_version info" "indexMetaLevel d' (url a) = Some m"
    have "stored_watermark d' (url a) = info_version info" using h(2,3) by (simp add: stored_watermark_def)
    then have "indexArchive rt d' a = (Inr (), d')" using h(1) by (simp add: indexArchive_noop)
    then show ?thesis by simp
  qed
  then show ?thesis using p by simp
qed

subsection \<open>Evaluating the scenario\<close>

lemmas scenario_defs = foo_table_def scenario_db_def scenario_archive_def scenario_runtime_def

lemmas run_defs = indexArchive_def stored_watermark_def scanArchiveHistoryForUpdates_def scan_step_def
  applyUpdate_def readAndIndexFile_def readAndIndexFile_try_def unindexFile_def unindexFile_try_def
  table_put_def table_del_def meta_put_def meta_del_def LevelUtil_update_def emit_def
  emit_updated_def Set_of_def Let_def

subsection \<open>What the dispatcher returns\<close>

lemma touched_in_tables:
  "firstRecordTable ts p = Some i \<Longrightarrow> \<exists>t\<in>set ts. TableName (name (ts ! i)) = TableName (name t)"
  using firstRecordTable_Some[of ts p i] nth_mem[of i ts] by blast

lemma readAndIndexFile_caught:
  "readAndIndexFile_try rt d a p = Inl e \<Longrightarrow>
     readAndIndexFile rt d a m p = (Inr RFalse, emit (IndexError (url a @ p) e) d)"
  by (simp add: readAndIndexFile_def)

lemma unindexFile_caught:
  "unindexFile_try d a p = Inl e \<Longrightarrow> unindexFile d a p = (Inr RFalse, d)"
  by (simp add: unindexFile_def)

lemma readAndIndexFile_result:
  "\<exists>r. fst (readAndIndexFile rt d a m p) = Inr r \<and>
     (r = RFalse \<or> (\<exists>t\<in>set (tables d). r = TableName (name t)))"
proof (cases "readAndIndexFile_try rt d a p")
  case (Inl e)
  then show ?thesis by (simp add: readAndIndexFile_def)
next
  case (Inr rd)
  obtain r d' where rd: "rd = (r, d')" by fastforce
  from readAndIndexFile_try_touched[OF Inr[unfolded rd]]
  have "r = RFalse \<or> (\<exists>t\<in>set (tables d). r = TableName (name t))"
    using touched_in_tables[of "tables d" p] by blast
  then show ?thesis using Inr rd by (simp add: readAndIndexFile_def)
qed

lemma unindexFile_result:
  "\<exists>r. fst (unindexFile d a p) = Inr r \<and>
     (r = RFalse \<or> (\<exists>t\<in>set (tables d). r = TableName (name t)))"
proof (cases "unindexFile_try d a p")
  case (Inl e)
  then show ?thesis by (simp add: unindexFile_def)
next
  case (Inr rd)
  obtain r d' where rd: "rd = (r, d')" by fastforce
  from unindexFile_try_touched[OF Inr[unfolded rd]]
  have "r = RFalse \<or> (\<exists>t\<in>set (tables d). r = TableName (name t))"
    using touched_in_tables[of "tables d" p] by blast
  then show ?thesis using Inr rd by (simp add: unindexFile_def)
qed

lemma unindexFile_no_table:
  "\<forall>t\<in>set (tables d). \<not> isRecordFile t p \<Longrightarrow> unindexFile d a p = (Inr RFalse, d)"
  using firstRecordTable_None[of "tables d" p]
  by (simp add: unindexFile_def unindexFile_try_def)

lemma readAndIndexFile_no_table:
  assumes "\<forall>t\<in>set (tables d). \<not> isRecordFile t p"
  shows "readAndIndexFile rt d a m p = (Inr RFalse, d) \<or>
     (\<exists>e. readAndIndexFile rt d a m p = (Inr RFalse, emit (IndexError (url a @ p) e) d))"
proof -
  have n: "firstRecordTable (tables d) p = None"
    using assms firstRecordTable_None[of "tables d" p] by simp
  show ?thesis
  proof (cases "readAndIndexFile_try rt d a p")
    case (Inl e)
    then have "readAndIndexFile rt d a m p = (Inr RFalse, emit (IndexError (url a @ p) e) d)"
      by (simp add: readAndIndexFile_def)
    then show ?thesis by blast
  next
    case (Inr rd)
    obtain r d' where rd: "rd = (r, d')" by fastforce
    from readAndIndexFile_try_touched[OF Inr[unfolded rd]] n have "r = RFalse \<and> d' = d" by simp
    then show ?thesis using Inr rd by (simp add: readAndIndexFile_def)
  qed
qed

lemma unindexFile_store_fails:
  "firstRecordTable (tables d) p = Some i \<Longrightarrow> level_error (tables d ! i) = Some e \<Longrightarrow>
     unindexFile_try d a p = Inl e"
  by (simp add: unindexFile_try_def table_del_def)

subsection \<open>Batches\<close>

lemma readAndIndexFile_read_fails:
  "readFile a p = Inl e \<Longrightarrow>
     readAndIndexFile rt d a m p = (Inr RFalse, emit (IndexError (url a @ p) e) d)"
  by (simp add: readAndIndexFile_def readAndIndexFile_try_def)

lemma readAndIndexFile_parse_fails:
  "readFile a p = Inr c \<Longrightarrow> JSON_parse rt c = Inl e \<Longrightarrow>
     readAndIndexFile rt d a m p = (Inr RFalse, emit (IndexError (url a @ p) e) d)"
  by (simp add: readAndIndexFile_def readAndIndexFile_try_def)

text \<open>The events do not influence what the dispatcher does.\<close>

lemma table_put_trace:
  "table_put (d\<lparr>trace := t\<rparr>) i k v =
     (case table_put d i k v of Inl e \<Rightarrow> Inl e
      | Inr d' \<Rightarrow> Inr (d'\<lparr>trace := t @ drop (length (trace d)) (trace d')\<rparr>))"
  by (simp add: table_put_def Let_def split: option.splits)

lemma table_del_trace:
  "table_del (d\<lparr>trace := t\<rparr>) i k =
     (case table_del d i k of Inl e \<Rightarrow> Inl e
      | Inr d' \<Rightarrow> Inr (d'\<lparr>trace := t @ drop (length (trace d)) (trace d')\<rparr>))"
  by (simp add: table_del_def Let_def split: option.splits)

lemma readAndIndexFile_try_trace:
  "readAndIndexFile_try rt (d\<lparr>trace := t\<rparr>) a p =
     (case readAndIndexFile_try rt d a p of Inl e \<Rightarrow> Inl e
      | Inr (r, d') \<Rightarrow> Inr (r, d'\<lparr>trace := t @ drop (length (trace d)) (trace d')\<rparr>))"
  by (simp add: readAndIndexFile_try_def Let_def table_put_trace table_del_trace
      split: sum.splits option.splits)

lemma unindexFile_try_trace:
  "unindexFile_try (d\<lparr>trace := t\<rparr>) a p =
     (case unindexFile_try d a p of Inl e \<Rightarrow> Inl e
      | Inr (r, d') \<Rightarrow> Inr (r, d'\<lparr>trace := t @ drop (length (trace d)) (trace d')\<rparr>))"
  by (simp add: unindexFile_try_def Let_def table_del_trace
      split: sum.splits option.splits)

lemma applyUpdate_trace:
  "applyUpdate rt (d\<lparr>trace := t\<rparr>) a m u =
     (fst (applyUpdate rt d a m u),
      (snd (applyUpdate rt d a m u))
        \<lparr>trace := t @ drop (length (trace d)) (trace (snd (applyUpdate rt d a m u)))\<rparr>)"
  by (simp add: applyUpdate_def readAndIndexFile_def unindexFile_def emit_def
      readAndIndexFile_try_trace unindexFile_try_trace split: sum.splits prod.splits)


lemma applyUpdates_trace:
  "applyUpdates rt (d\<lparr>trace := t\<rparr>) a m us =
     (fst (applyUpdates rt d a m us),
      (snd (applyUpdates rt d a m us))
        \<lparr>trace := t @ drop (length (trace d)) (trace (snd (applyUpdates rt d a m us)))\<rparr>)"
proof (induction us arbitrary: d t)
  case Nil
  show ?case by simp
next
  case (Cons pu us)
  obtain r d1 where 1: "applyUpdate rt d a m (snd pu) = (r, d1)" by fastforce
  obtain rs d2 where 2: "applyUpdates rt d1 a m us = (rs, d2)" by fastforce
  obtain ev1 where ev1: "trace d1 = trace d @ ev1"
    using trace_applyUpdate[of rt d a m "snd pu"] 1 by auto
  obtain ev2 where ev2: "trace d2 = trace d1 @ ev2"
    using trace_applyUpdates[of rt d1 a m us] 2 by auto
  have a: "applyUpdate rt (d\<lparr>trace := t\<rparr>) a m (snd pu) = (r, d1\<lparr>trace := t @ ev1\<rparr>)"
    using applyUpdate_trace[where d=d and t=t and u="snd pu"] 1 ev1 by simp
  have b: "applyUpdates rt (d1\<lparr>trace := t @ ev1\<rparr>) a m us = (rs, d2\<lparr>trace := (t @ ev1) @ ev2\<rparr>)"
    using Cons.IH[where d=d1 and t="t @ ev1"] 2 ev2 by simp
  show ?case using 1 2 a b ev1 ev2 by simp
qed

lemma applyUpdates_append:
  "applyUpdates rt d a m (us1 @ us2) =
     (case applyUpdates rt d a m us1 of
        (r1, d1) \<Rightarrow>
          (case applyUpdates rt d1 a m us2 of
             (r2, d2) \<Rightarrow>
               ((case r1 of Inl e \<Rightarrow> Inl e
                 | Inr xs \<Rightarrow> (case r2 of Inl e \<Rightarrow> Inl e | Inr ys \<Rightarrow> Inr (xs @ ys))), d2)))"
proof (induction us1 arbitrary: d)
  case Nil
  show ?case by (simp split: prod.splits sum.splits)
next
  case (Cons pu us1)
  show ?case by (simp add: Cons.IH split: prod.splits sum.splits)
qed

lemma applyUpdates_length:
  "applyUpdates rt d a m us = (Inr rs, d') \<Longrightarrow> length rs = length us"
proof (induction us arbitrary: d rs)
  case Nil
  then show ?case by simp
next
  case (Cons pu us)
  then show ?case by (auto split: prod.splits sum.splits)
qed

lemma failing_file_isolated_batch:
  assumes ap: "\<And>d1. applyUpdate rt d1 a m u = (Inr RFalse, emit s d1)"
  shows "\<exists>rs1 rs2 ev1 ev2 d0.
       applyUpdates rt d a m (us1 @ us2) = (Inr (rs1 @ rs2), d0) \<and>
       trace d0 = trace d @ ev1 @ ev2 \<and> length rs1 = length us1 \<and>
       applyUpdates rt d a m (us1 @ (k, u) # us2) =
         (Inr (rs1 @ RFalse # rs2), d0\<lparr>trace := trace d @ ev1 @ [Emit s] @ ev2\<rparr>)"
proof -
  obtain r1 d1 where 1: "applyUpdates rt d a m us1 = (r1, d1)" by fastforce
  obtain rs1 where r1: "r1 = Inr rs1" using applyUpdates_returns[of rt d a m us1] 1 by auto
  obtain r2 d2 where 2: "applyUpdates rt d1 a m us2 = (r2, d2)" by fastforce
  obtain rs2 where r2: "r2 = Inr rs2" using applyUpdates_returns[of rt d1 a m us2] 2 by auto
  obtain ev1 where ev1: "trace d1 = trace d @ ev1"
    using trace_applyUpdates[of rt d a m us1] 1 by auto
  obtain ev2 where ev2: "trace d2 = trace d1 @ ev2"
    using trace_applyUpdates[of rt d1 a m us2] 2 by auto
  have whole: "applyUpdates rt d a m (us1 @ us2) = (Inr (rs1 @ rs2), d2)"
    using 1 2 r1 r2 by (simp add: applyUpdates_append)
  have e: "emit s d1 = d1\<lparr>trace := trace d1 @ [Emit s]\<rparr>" by (simp add: emit_def)
  have rest: "applyUpdates rt (emit s d1) a m us2 =
      (Inr rs2, d2\<lparr>trace := (trace d1 @ [Emit s]) @ ev2\<rparr>)"
    unfolding e using applyUpdates_trace[where d=d1 and t="trace d1 @ [Emit s]" and us=us2] 2 r2 ev2 by simp
  have "applyUpdates rt d1 a m ((k, u) # us2) =
      (Inr (RFalse # rs2), d2\<lparr>trace := (trace d1 @ [Emit s]) @ ev2\<rparr>)"
    using ap[of d1] rest by simp
  then have "applyUpdates rt d a m (us1 @ (k, u) # us2) =
      (Inr (rs1 @ RFalse # rs2), d2\<lparr>trace := trace d @ ev1 @ [Emit s] @ ev2\<rparr>)"
    using 1 r1 ev1 by (simp add: applyUpdates_append[of rt d a m us1 "(k, u) # us2"])
  moreover have "trace d2 = trace d @ ev1 @ ev2" using ev1 ev2 by simp
  moreover have "length rs1 = length us1" using 1 r1 applyUpdates_length by blast
  ultimately show ?thesis using whole by blast
qed

lemma firstRecordTable_first:
  "i < length ts \<Longrightarrow> isRecordFile (ts ! i) p \<Longrightarrow> \<forall>j<i. \<not> isRecordFile (ts ! j) p \<Longrightarrow>
     firstRecordTable ts p = Some i"
proof (induction ts arbitrary: i)
  case Nil
  then show ?case by simp
next
  case (Cons t ts)
  show ?case
  proof (cases i)
    case 0
    then show ?thesis using Cons.prems by simp
  next
    case (Suc k)
    have "\<not> isRecordFile t p" using Cons.prems(3) Suc by auto
    moreover have "firstRecordTable ts p = Some k"
    proof (rule Cons.IH)
      show "k < length ts" using Cons.prems(1) Suc by simp
      show "isRecordFile (ts ! k) p" using Cons.prems(2) Suc by simp
      show "\<forall>j<k. \<not> isRecordFile (ts ! j) p"
      proof (intro allI impI)
        fix j assume "j < k"
        then have "Suc j < i" using Suc by simp
        then have "\<not> isRecordFile ((t # ts) ! Suc j) p" using Cons.prems(3) by blast
        then show "\<not> isRecordFile (ts ! j) p" by simp
      qed
    qed
    ultimately show ?thesis using Suc by simp
  qed
qed

lemma unindexFile_deletes:
  assumes "i < length (tables d)" and "isRecordFile (tables d ! i) p"
    and "\<forall>j<i. \<not> isRecordFile (tables d ! j) p" and "level_error (tables d ! i) = None"
  shows "unindexFile d a p =
      (Inr (TableName (name (tables d ! i))),
       d\<lparr>tables := (tables d)[i := (tables d ! i)\<lparr>level := (level (tables d ! i))(url a @ p := None)\<rparr>],
         trace := trace d @ [TableDel (name (tables d ! i)) (url a @ p)]\<rparr>)"
proof -
  have "firstRecordTable (tables d) p = Some i" using assms(1,2,3) by (rule firstRecordTable_first)
  then show ?thesis using assms(4)
    by (simp add: unindexFile_def unindexFile_try_def table_del_def Let_def)
qed

subsection \<open>The scan of the history\<close>

lemma scan_snoc: "fold (scan_step d) (h @ [x]) [] = scan_step d x (fold (scan_step d) h [])"
  by simp

lemma scan_distinct: "distinct (map fst (fold (scan_step d) h []))"
proof (induction h rule: rev_induct)
  case Nil
  show ?case by simp
next
  case (snoc x h)
  then show ?case by (simp add: scan_step_def distinct_update)
qed

lemma scan_map_of:
  "map_of (fold (scan_step d) h []) p =
     (if tableFilePatterns d p then find (\<lambda>u. path u = p) (rev h) else None)"
proof (induction h rule: rev_induct)
  case Nil
  show ?case by simp
next
  case (snoc x h)
  show ?case
  proof (cases "tableFilePatterns d (path x)")
    case True
    then show ?thesis using snoc by (simp add: scan_step_def update_conv')
  next
    case False
    then have "fold (scan_step d) (h @ [x]) [] = fold (scan_step d) h []"
      by (simp add: scan_step_def)
    moreover have "tableFilePatterns d p \<Longrightarrow> path x \<noteq> p" using False by auto
    ultimately show ?thesis using snoc by simp
  qed
qed

lemma find_last_sorted:
  "find P (rev h) = Some u \<Longrightarrow> sorted (map f h) \<Longrightarrow> \<forall>u'\<in>set h. P u' \<longrightarrow> (f u' :: nat) \<le> f u"
proof (induction h rule: rev_induct)
  case Nil
  then show ?case by simp
next
  case (snoc x h)
  have s: "sorted (map f h)" "\<forall>y\<in>set h. f y \<le> f x"
    using snoc.prems(2) by (simp_all add: sorted_append)
  show ?case
  proof (cases "P x")
    case True
    then have "u = x" using snoc.prems(1) by simp
    then show ?thesis using s(2) by simp
  next
    case False
    then have "find P (rev h) = Some u" using snoc.prems(1) by simp
    from snoc.IH[OF this s(1)] False show ?thesis by simp
  qed
qed

lemma find_Some_set: "find P xs = Some x \<Longrightarrow> P x \<and> x \<in> set xs"
  by (induction xs) (auto split: if_splits)

lemma scan_key_is_path:
  "(p, u) \<in> set (fold (scan_step d) h []) \<Longrightarrow> path u = p \<and> u \<in> set h \<and> tableFilePatterns d p"
proof -
  assume m: "(p, u) \<in> set (fold (scan_step d) h [])"
  have "map_of (fold (scan_step d) h []) p = Some u"
    using m scan_distinct[of d h] by simp
  then have f: "tableFilePatterns d p" "find (\<lambda>u. path u = p) (rev h) = Some u"
    by (simp_all add: scan_map_of split: if_splits)
  from find_Some_set[OF f(2)] have "path u = p \<and> u \<in> set (rev h)" .
  then show ?thesis using f(1) by simp
qed

lemma readAndIndexFile_cases:
  assumes "readFile a p = Inr c" and "JSON_parse rt c = Inr r0"
    and "i < length (tables d)" and "isRecordFile (tables d ! i) p"
    and "\<forall>j<i. \<not> isRecordFile (tables d ! j) p"
    and "level_error (tables d ! i) = None"
  shows
    "(\<forall>f v. validator (tables d ! i) = Some f \<and> f r0 = Inr v \<and> \<not> truthy v \<longrightarrow>
        readAndIndexFile rt d a m p =
          (Inr (TableName (name (tables d ! i))),
           d\<lparr>tables := (tables d)[i := (tables d ! i)
                  \<lparr>level := (level (tables d ! i))(url a @ p := None)\<rparr>],
             trace := trace d @ [TableDel (name (tables d ! i)) (url a @ p)]\<rparr>))
     \<and> (\<forall>r1. (validator (tables d ! i) = None \<or>
                (\<exists>f v. validator (tables d ! i) = Some f \<and> f r0 = Inr v \<and> truthy v)) \<and>
               (preprocess (tables d ! i) = None \<and> r1 = r0 \<or>
                (\<exists>g n. preprocess (tables d ! i) = Some g \<and> g r0 = Inr n \<and>
                       r1 = (if truthy n then n else r0))) \<longrightarrow>
        readAndIndexFile rt d a m p =
          (Inr (TableName (name (tables d ! i))),
           d\<lparr>tables := (tables d)[i := (tables d ! i)
                  \<lparr>level := (level (tables d ! i))(url a @ p \<mapsto>
                      \<lparr>entry_url = url a @ p, origin = url a, indexedAt = Date_now rt,
                       entry_record = r1\<rparr>)\<rparr>],
             trace := trace d @ [TablePut (name (tables d ! i)) (url a @ p)
                      \<lparr>entry_url = url a @ p, origin = url a, indexedAt = Date_now rt,
                       entry_record = r1\<rparr>]\<rparr>))"
proof -
  have ft: "firstRecordTable (tables d) p = Some i"
    using assms(3,4,5) by (rule firstRecordTable_first)
  show ?thesis
  proof (intro conjI allI impI)
    fix f v
    assume "validator (tables d ! i) = Some f \<and> f r0 = Inr v \<and> \<not> truthy v"
    then show "readAndIndexFile rt d a m p =
          (Inr (TableName (name (tables d ! i))),
           d\<lparr>tables := (tables d)[i := (tables d ! i)
                  \<lparr>level := (level (tables d ! i))(url a @ p := None)\<rparr>],
             trace := trace d @ [TableDel (name (tables d ! i)) (url a @ p)]\<rparr>)"
      using assms(1,2,6) ft
      by (simp add: readAndIndexFile_def readAndIndexFile_try_def table_del_def Let_def)
  next
    fix r1
    assume h: "(validator (tables d ! i) = None \<or>
                (\<exists>f v. validator (tables d ! i) = Some f \<and> f r0 = Inr v \<and> truthy v)) \<and>
               (preprocess (tables d ! i) = None \<and> r1 = r0 \<or>
                (\<exists>g n. preprocess (tables d ! i) = Some g \<and> g r0 = Inr n \<and>
                       r1 = (if truthy n then n else r0)))"
    have v: "\<exists>x. (case validator (tables d ! i) of None \<Rightarrow> Inr (JBool True) | Some f \<Rightarrow> f r0) = Inr x
        \<and> truthy x"
      using h by (elim conjE disjE exE) simp_all
    have pp: "(case preprocess (tables d ! i) of None \<Rightarrow> Inr r0
          | Some f \<Rightarrow> (case f r0 of Inl e \<Rightarrow> Inl e
              | Inr newRecord \<Rightarrow> Inr (if truthy newRecord then newRecord else r0))) = Inr r1"
      using h by (elim conjE disjE exE) simp_all
    from v obtain x where x: "(case validator (tables d ! i) of None \<Rightarrow> Inr (JBool True)
        | Some f \<Rightarrow> f r0) = Inr x" "truthy x" by blast
    show "readAndIndexFile rt d a m p =
          (Inr (TableName (name (tables d ! i))),
           d\<lparr>tables := (tables d)[i := (tables d ! i)
                  \<lparr>level := (level (tables d ! i))(url a @ p \<mapsto>
                      \<lparr>entry_url = url a @ p, origin = url a, indexedAt = Date_now rt,
                       entry_record = r1\<rparr>)\<rparr>],
             trace := trace d @ [TablePut (name (tables d ! i)) (url a @ p)
                      \<lparr>entry_url = url a @ p, origin = url a, indexedAt = Date_now rt,
                       entry_record = r1\<rparr>]\<rparr>)"
      using assms(1,2,6) ft x pp
      by (simp add: readAndIndexFile_def readAndIndexFile_try_def table_put_def Let_def)
  qed
qed

subsection \<open>Adding an archive\<close>

lemma readAndIndexFile_put:
  assumes "readFile a p = Inr c" and "JSON_parse rt c = Inr r0"
    and "i < length (tables d)" and "isRecordFile (tables d ! i) p"
    and "\<forall>j<i. \<not> isRecordFile (tables d ! j) p"
    and "level_error (tables d ! i) = None"
    and "validator (tables d ! i) = None \<or>
         (\<exists>f v. validator (tables d ! i) = Some f \<and> f r0 = Inr v \<and> truthy v)"
    and "preprocess (tables d ! i) = None \<and> r1 = r0 \<or>
         (\<exists>g n. preprocess (tables d ! i) = Some g \<and> g r0 = Inr n \<and>
                r1 = (if truthy n then n else r0))"
  shows "readAndIndexFile rt d a m p =
          (Inr (TableName (name (tables d ! i))),
           d\<lparr>tables := (tables d)[i := (tables d ! i)
                  \<lparr>level := (level (tables d ! i))(url a @ p \<mapsto>
                      \<lparr>entry_url = url a @ p, origin = url a, indexedAt = Date_now rt,
                       entry_record = r1\<rparr>)\<rparr>],
             trace := trace d @ [TablePut (name (tables d ! i)) (url a @ p)
                      \<lparr>entry_url = url a @ p, origin = url a, indexedAt = Date_now rt,
                       entry_record = r1\<rparr>]\<rparr>)"
  using readAndIndexFile_cases[OF assms(1-6), of m] assms(7,8) by blast

lemma addArchive_first_pass:
  assumes gi: "getInfo a = Inr info" and v: "0 < info_version info"
    and op: "isOpen d \<or> isBeingOpened d" and lv: "db_level d"
    and hi: "history a 1 (info_version info + 1) = Inr [u]"
    and pat: "tableFilePatterns d (path u)" and ty: "utype u \<noteq> ''del''"
    and rd: "readFile a (path u) = Inr c" and pr: "JSON_parse rt c = Inr r0"
    and i: "i < length (tables d)" and own: "isRecordFile (tables d ! i) (path u)"
    and first: "\<forall>j<i. \<not> isRecordFile (tables d ! j) (path u)"
    and le: "level_error (tables d ! i) = None"
    and va: "validator (tables d ! i) = None \<or>
         (\<exists>f v. validator (tables d ! i) = Some f \<and> f r0 = Inr v \<and> truthy v)"
    and pp: "preprocess (tables d ! i) = None \<and> r1 = r0 \<or>
         (\<exists>g n. preprocess (tables d ! i) = Some g \<and> g r0 = Inr n \<and>
                r1 = (if truthy n then n else r0))"
  shows "\<exists>d' a'. addArchive rt ticks d a = (Some (Inr ()), d', a')
      \<and> level (tables d' ! i) =
          (level (tables d ! i))(url a @ path u \<mapsto>
             \<lparr>entry_url = url a @ path u, origin = url a, indexedAt = Date_now rt,
              entry_record = r1\<rparr>)
      \<and> indexMetaLevel d' (url a) =
          Some \<lparr>meta_url = url a, version = info_version info,
                meta_isWritable = Some (isOwner info), meta_localPath = localPath a\<rparr>
      \<and> fileEvents a' \<noteq> None"
proof -
  define a1 where "a1 = a\<lparr>isWritable := Some (isOwner info)\<rparr>"
  define m0 where "m0 = \<lparr>meta_url = url a, version = 0, meta_isWritable = Some (isOwner info),
      meta_localPath = localPath a\<rparr>"
  define d1 where "d1 = meta_put d (url a) m0"
  define e where "e = \<lparr>entry_url = url a @ path u, origin = url a, indexedAt = Date_now rt,
              entry_record = r1\<rparr>"
  define d2 where "d2 = d1\<lparr>tables := (tables d1)[i := (tables d1 ! i)
                  \<lparr>level := (level (tables d1 ! i))(url a @ path u \<mapsto> e)\<rparr>],
             trace := trace d1 @ [TablePut (name (tables d1 ! i)) (url a @ path u) e]\<rparr>"
  have a1: "url a1 = url a" "getInfo a1 = Inr info" "readFile a1 = readFile a"
    "history a1 = history a" "localPath a1 = localPath a" "isWritable a1 = Some (isOwner info)"
    using gi by (simp_all add: a1_def)
  have d1: "tables d1 = tables d" "isOpen d1 = isOpen d" "isBeingOpened d1 = isBeingOpened d"
    "db_level d1 = db_level d" "tableFilePatterns d1 = tableFilePatterns d"
    "indexMetaLevel d1 (url a) = Some m0"
    by (simp_all add: d1_def meta_put_def)
  have wm: "stored_watermark d1 (url a1) = 0"
    using d1(6) a1(1) by (simp add: stored_watermark_def m0_def)
  have sc: "scanArchiveHistoryForUpdates d1 a1 (stored_watermark d1 (url a1) + 1) (info_version info + 1)
      = Inr [(path u, u)]"
    using hi pat by (simp add: wm scanArchiveHistoryForUpdates_def a1(4) scan_step_def d1(5))
  have "readAndIndexFile rt d1 a1 info (path u) = (Inr (TableName (name (tables d1 ! i))), d2)"
    unfolding d2_def e_def a1(1)[symmetric]
  proof (rule readAndIndexFile_put[where c=c and ?r0.0=r0])
    show "readFile a1 (path u) = Inr c" using rd by (simp add: a1)
    show "JSON_parse rt c = Inr r0" by (rule pr)
    show "i < length (tables d1)" using i by (simp add: d1)
    show "isRecordFile (tables d1 ! i) (path u)" using own by (simp add: d1)
    show "\<forall>j<i. \<not> isRecordFile (tables d1 ! j) (path u)" using first by (simp add: d1)
    show "level_error (tables d1 ! i) = None" using le by (simp add: d1)
    show "validator (tables d1 ! i) = None \<or>
         (\<exists>f v. validator (tables d1 ! i) = Some f \<and> f r0 = Inr v \<and> truthy v)"
      using va unfolding d1(1) .
    show "preprocess (tables d1 ! i) = None \<and> r1 = r0 \<or>
         (\<exists>g n. preprocess (tables d1 ! i) = Some g \<and> g r0 = Inr n \<and>
                r1 = (if truthy n then n else r0))"
      using pp unfolding d1(1) .
  qed
  then have ap: "applyUpdates rt d1 a1 info [(path u, u)] = (Inr [TableName (name (tables d1 ! i))], d2)"
    using ty by (simp add: applyUpdate_def)
  have lt: "stored_watermark d1 (url a1) < info_version info" using wm v by simp
  have op1: "isOpen d1 \<or> isBeingOpened d1" using op d1(2,3) by simp
  have lv1: "db_level d1" using lv d1(4) by simp
  define d3 where "d3 = emit (IndexesUpdated (url a1) (info_version info))
              (fold (emit_updated a1 info) (Set_of [TableName (name (tables d1 ! i))])
                 (LevelUtil_update d2 (url a1) (url a1) (info_version info)))"
  have ia: "indexArchive rt d1 a1 = (Inr (), d3)"
    unfolding d3_def by (rule indexArchive_proceeds[OF op1 lv1 a1(2) lt sc ap])
  have add: "addArchive rt ticks d a = (Some (Inr ()), d3, watchArchive d3 a1)"
    using gi ia
    by (simp add: addArchive_def Let_def a1_def[symmetric] a1 m0_def[symmetric] d1_def[symmetric])
  have t3: "tables d3 = tables d2"
    using db_frame_fields(7)[of d3 "LevelUtil_update d2 (url a1) (url a1) (info_version info)"]
    by (simp add: d3_def Set_of_def emit_updated_def emit_def LevelUtil_update_def meta_put_def)
  have l: "level (tables d3 ! i) = (level (tables d ! i))(url a @ path u \<mapsto> e)"
    using i by (simp add: t3 d2_def d1(1))
  have m3: "indexMetaLevel d3 (url a) = Some (m0\<lparr>meta_url := url a, version := info_version info\<rparr>)"
    using d1(6)
    by (simp add: d3_def a1(1) LevelUtil_update_def meta_put_def d2_def)
  have w: "fileEvents (watchArchive d3 a1) \<noteq> None" by (simp add: watchArchive_def)
  show ?thesis using add l m3 w by (simp add: e_def m0_def)
qed

lemma addArchive_version_0:
  assumes gi: "getInfo a = Inr info" and v: "info_version info = 0"
  shows "addArchive rt ticks d a =
     (Some (Inr ()),
      meta_put d (url a)
        \<lparr>meta_url = url a, version = 0, meta_isWritable = Some (isOwner info),
         meta_localPath = localPath a\<rparr>,
      watchArchive
        (meta_put d (url a)
          \<lparr>meta_url = url a, version = 0, meta_isWritable = Some (isOwner info),
           meta_localPath = localPath a\<rparr>)
        (a\<lparr>isWritable := Some (isOwner info)\<rparr>))"
proof -
  define a1 where "a1 = a\<lparr>isWritable := Some (isOwner info)\<rparr>"
  define d1 where "d1 = meta_put d (url a)
        \<lparr>meta_url = url a, version = 0, meta_isWritable = Some (isOwner info),
         meta_localPath = localPath a\<rparr>"
  have a1: "url a1 = url a" "getInfo a1 = Inr info" "localPath a1 = localPath a"
    "isWritable a1 = Some (isOwner info)"
    using gi by (simp_all add: a1_def)
  have "indexArchive rt d1 a1 = (Inr (), d1)"
  proof (cases "(isOpen d1 \<or> isBeingOpened d1) \<and> db_level d1")
    case True
    then show ?thesis using a1(2) v by (simp add: indexArchive_noop)
  next
    case False
    then show ?thesis using indexArchive_closed[of d1 rt a1] indexArchive_nolevel[of d1 rt a1]
      by blast
  qed
  then show ?thesis
    using gi by (simp add: addArchive_def Let_def a1_def[symmetric] a1 d1_def[symmetric])
qed

subsection \<open>Removing an archive\<close>

lemma db_frame_delMatches: "db_frame (snd (delMatches d ms)) = db_frame d"
proof (induction ms arbitrary: d)
  case Nil
  show ?case by simp
next
  case (Cons m ms)
  show ?case
  proof (cases "table_del d (fst m) (snd m)")
    case (Inl e)
    then show ?thesis using Cons.IH[of d] by simp
  next
    case (Inr d1)
    then show ?thesis using Cons.IH[of d1] db_frame_table_del[OF Inr] by simp
  qed
qed

lemma db_frame_meta_del:
  "archives (meta_del d k) = archives d \<and> isOpen (meta_del d k) = isOpen d
   \<and> tables (meta_del d k) = tables d \<and> indexMetaLevel (meta_del d k) k = None"
  by (simp add: meta_del_def)

lemma unindexArchive_frame:
  "archives (snd (unindexArchive d a)) = archives d \<and> isOpen (snd (unindexArchive d a)) = isOpen d"
proof (cases "scanArchiveForRecords d a")
  case (Inl e)
  then show ?thesis by (simp add: unindexArchive_def)
next
  case (Inr ms)
  obtain r d1 where dm: "delMatches d ms = (r, d1)" by fastforce
  have f: "db_frame d1 = db_frame d" using db_frame_delMatches[of d ms] dm by simp
  have "archives d1 = archives d" "isOpen d1 = isOpen d"
    using db_frame_fields(5)[OF f] db_frame_fields(1)[OF f] by simp_all
  then show ?thesis using Inr dm
    by (cases r) (simp_all add: unindexArchive_def db_frame_meta_del)
qed

lemma removeArchive_frame:
  "archives (fst (snd (removeArchive d a))) = archives d
   \<and> isOpen (fst (snd (removeArchive d a))) = isOpen d"
proof -
  obtain r d1 where u: "unindexArchive d a = (r, d1)" by fastforce
  have "archives d1 = archives d \<and> isOpen d1 = isOpen d"
    using unindexArchive_frame[of d a] u by simp
  then show ?thesis using u by (cases r) (simp_all add: removeArchive_def)
qed

lemma table_del_level:
  assumes "table_del d i k = Inr d'"
  shows "level (tables d' ! j) k' =
     (if j = i \<and> i < length (tables d) \<and> k' = k then None else level (tables d ! j) k')"
proof -
  from table_del_Inr[OF assms]
  have d': "tables d' = (tables d)[i := (tables d ! i)\<lparr>level := (level (tables d ! i))(k := None)\<rparr>]"
    by simp
  show ?thesis
  proof (cases "j = i")
    case True
    show ?thesis
    proof (cases "i < length (tables d)")
      case True
      then show ?thesis using \<open>j = i\<close> by (simp add: d')
    next
      case False
      then have "tables d' = tables d" by (simp add: d' list_update_beyond)
      then show ?thesis using False by simp
    qed
  next
    case False
    then show ?thesis by (simp add: d')
  qed
qed

lemma delMatches_only_deletes:
  "level (tables d ! j) k = None \<Longrightarrow> level (tables (snd (delMatches d ms)) ! j) k = None"
proof (induction ms arbitrary: d)
  case Nil
  then show ?case by simp
next
  case (Cons m ms)
  show ?case
  proof (cases "table_del d (fst m) (snd m)")
    case (Inl e)
    then show ?thesis using Cons.IH[OF Cons.prems] by simp
  next
    case (Inr d1)
    have "level (tables d1 ! j) k = None" using table_del_level[OF Inr, of j k] Cons.prems by simp
    from Cons.IH[OF this] show ?thesis using Inr by simp
  qed
qed

lemma delMatches_deletes:
  assumes "\<forall>t\<in>set (tables d). level_error t = None" and "\<forall>m\<in>set ms. fst m < length (tables d)"
  shows "fst (delMatches d ms) = Inr () \<and>
     (\<forall>m\<in>set ms. level (tables (snd (delMatches d ms)) ! fst m) (snd m) = None)"
  using assms
proof (induction ms arbitrary: d)
  case Nil
  show ?case by simp
next
  case (Cons m ms)
  have i: "fst m < length (tables d)" using Cons.prems(2) by simp
  then have "level_error (tables d ! fst m) = None" using Cons.prems(1) by simp
  then obtain d1 where d1: "table_del d (fst m) (snd m) = Inr d1"
    by (simp add: table_del_def Let_def)
  have f: "db_frame d1 = db_frame d" by (rule db_frame_table_del[OF d1])
  have fr: "map table_frame (tables d1) = map table_frame (tables d)"
    by (rule db_frame_fields(7)[OF f])
  have len: "length (tables d1) = length (tables d)" by (rule frames_length[OF fr])
  have le: "\<forall>t\<in>set (tables d1). level_error t = None"
  proof
    fix t assume "t \<in> set (tables d1)"
    then obtain n where n: "n < length (tables d1)" "t = tables d1 ! n"
      by (auto simp: in_set_conv_nth)
    have "table_frame (tables d1 ! n) = table_frame (tables d ! n)"
      using frames_nth[OF fr] n(1) len by simp
    then have "level_error (tables d1 ! n) = level_error (tables d ! n)"
      by (metis table_frame_fields(6))
    then show "level_error t = None" using Cons.prems(1) n len by simp
  qed
  have b: "\<forall>m\<in>set ms. fst m < length (tables d1)" using Cons.prems(2) len by simp
  from Cons.IH[OF le b]
  have ih: "fst (delMatches d1 ms) = Inr ()"
    "\<forall>m\<in>set ms. level (tables (snd (delMatches d1 ms)) ! fst m) (snd m) = None" by simp_all
  have "level (tables d1 ! fst m) (snd m) = None"
    using table_del_level[OF d1, of "fst m" "snd m"] i by simp
  then have "level (tables (snd (delMatches d1 ms)) ! fst m) (snd m) = None"
    by (rule delMatches_only_deletes)
  then show ?case using d1 ih by simp
qed

lemma listAll_matches:
  "listAll ts a k = Inr ms \<Longrightarrow>
     (\<forall>m\<in>set ms. k \<le> fst m \<and> fst m < k + length ts) \<and>
     (\<forall>j<length ts. \<forall>us u. listRecordFiles (ts ! j) a = Inr us \<and> u \<in> set us \<longrightarrow> (k + j, u) \<in> set ms)"
proof (induction ts arbitrary: k ms)
  case Nil
  then show ?case by simp
next
  case (Cons t ts)
  from Cons.prems obtain us0 ms0 where
    l: "listRecordFiles t a = Inr us0" "listAll ts a (Suc k) = Inr ms0" "ms = map (Pair k) us0 @ ms0"
    by (auto split: sum.splits)
  note ih0 = Cons.IH[OF l(2)]
  have ih: "\<forall>m\<in>set ms0. Suc k \<le> fst m \<and> fst m < Suc k + length ts"
    "\<forall>j<length ts. \<forall>us u. listRecordFiles (ts ! j) a = Inr us \<and> u \<in> set us \<longrightarrow> (Suc k + j, u) \<in> set ms0"
    using conjunct1[OF ih0] conjunct2[OF ih0] by blast+
  have 1: "\<forall>m\<in>set ms. k \<le> fst m \<and> fst m < k + length (t # ts)"
    using ih(1) l(3) by auto
  have 2: "\<forall>j<length (t # ts). \<forall>us u. listRecordFiles ((t # ts) ! j) a = Inr us \<and> u \<in> set us
      \<longrightarrow> (k + j, u) \<in> set ms"
  proof (intro allI impI)
    fix j us u
    assume j: "j < length (t # ts)" and h: "listRecordFiles ((t # ts) ! j) a = Inr us \<and> u \<in> set us"
    show "(k + j, u) \<in> set ms"
    proof (cases j)
      case 0
      then show ?thesis using h l(1,3) by auto
    next
      case (Suc n)
      then have "n < length ts" "listRecordFiles (ts ! n) a = Inr us \<and> u \<in> set us"
        using j h by simp_all
      then have "(Suc k + n, u) \<in> set ms0" using ih(2) by blast
      then show ?thesis using Suc l(3) by simp
    qed
  qed
  show ?case using 1 2 by blast
qed

lemma listAll_succeeds:
  "\<forall>t\<in>set ts. \<exists>us. listRecordFiles t a = Inr us \<Longrightarrow> \<exists>ms. listAll ts a k = Inr ms"
proof (induction ts arbitrary: k)
  case Nil
  show ?case by simp
next
  case (Cons t ts)
  obtain us where us: "listRecordFiles t a = Inr us" using Cons.prems by auto
  obtain ms where "listAll ts a (Suc k) = Inr ms" using Cons.IH[of "Suc k"] Cons.prems by auto
  then show ?case using us by simp
qed


lemma removeArchive_succeeds:
  assumes ok: "\<forall>t\<in>set (tables d). level_error t = None \<and> (\<exists>us. listRecordFiles t a = Inr us)"
  shows "fst (removeArchive d a) = Inr ()
     \<and> indexMetaLevel (fst (snd (removeArchive d a))) (url a) = None
     \<and> fileEvents (snd (snd (removeArchive d a))) = None
     \<and> (\<forall>i<length (tables d). \<forall>us u. listRecordFiles (tables d ! i) a = Inr us \<and> u \<in> set us
           \<longrightarrow> level (tables (fst (snd (removeArchive d a))) ! i) u = None)"
proof -
  have "\<forall>t\<in>set (tables d). \<exists>us. listRecordFiles t a = Inr us" using ok by blast
  then obtain ms where ms: "listAll (tables d) a 0 = Inr ms"
    using listAll_succeeds[of "tables d" a 0] by blast
  note lm = listAll_matches[OF ms]
  have b: "\<forall>m\<in>set ms. fst m < length (tables d)" using conjunct1[OF lm] by simp
  have le: "\<forall>t\<in>set (tables d). level_error t = None" using ok by blast
  obtain d1 where d1: "delMatches d ms = (Inr (), d1)"
    using delMatches_deletes[OF le b] by (cases "delMatches d ms") simp
  have del: "\<forall>m\<in>set ms. level (tables d1 ! fst m) (snd m) = None"
    using delMatches_deletes[OF le b] d1 by simp
  have ua: "unindexArchive d a = (Inr (), meta_del d1 (url a))"
    using ms d1 by (simp add: unindexArchive_def scanArchiveForRecords_def)
  have ra: "removeArchive d a = (Inr (), meta_del d1 (url a), unwatchArchive a)"
    using ua by (simp add: removeArchive_def)
  have "\<forall>i<length (tables d). \<forall>us u. listRecordFiles (tables d ! i) a = Inr us \<and> u \<in> set us
           \<longrightarrow> level (tables d1 ! i) u = None"
  proof (intro allI impI)
    fix i us u
    assume i: "i < length (tables d)" and l: "listRecordFiles (tables d ! i) a = Inr us \<and> u \<in> set us"
    have "(0 + i, u) \<in> set ms" using conjunct2[OF lm] i l by blast
    then show "level (tables d1 ! i) u = None" using del by fastforce
  qed
  then have 4: "\<forall>i<length (tables d). \<forall>us u. listRecordFiles (tables d ! i) a = Inr us \<and> u \<in> set us
           \<longrightarrow> level (tables (fst (snd (removeArchive d a))) ! i) u = None"
    unfolding ra by (simp only: fst_conv snd_conv conjunct1[OF conjunct2[OF conjunct2[OF db_frame_meta_del]]])
  have 1: "fst (removeArchive d a) = Inr ()" using ra by simp
  have 2: "indexMetaLevel (fst (snd (removeArchive d a))) (url a) = None"
    using ra by (simp add: db_frame_meta_del)
  have 3: "fileEvents (snd (snd (removeArchive d a))) = None"
    using ra by (simp add: unwatchArchive_def)
  show ?thesis using 1 2 3 4 by blast
qed

subsection \<open>The retry loop\<close>

lemma not_source_dispatch: "is_table_write e \<or> is_index_error e \<Longrightarrow> \<not> is_source_signal e"
  by (auto simp: is_table_write_def is_index_error_def is_source_signal_def
      split: event.splits signal.splits)

lemma trace_fold_emit_updated_no_source:
  "\<exists>sigs. trace (fold (emit_updated a info) rs d) = trace d @ sigs \<and>
     (\<forall>e\<in>set sigs. \<not> is_source_signal e)"
proof (induction rs arbitrary: d)
  case Nil
  show ?case by simp
next
  case (Cons r rs)
  have "\<exists>s1. trace (emit_updated a info r d) = trace d @ s1 \<and> (\<forall>e\<in>set s1. \<not> is_source_signal e)"
    by (simp add: emit_updated_def emit_def is_source_signal_def split: touched.splits)
  then obtain s1 where s1: "trace (emit_updated a info r d) = trace d @ s1"
    "\<forall>e\<in>set s1. \<not> is_source_signal e" by blast
  obtain s2 where s2: "trace (fold (emit_updated a info) rs (emit_updated a info r d)) =
      trace (emit_updated a info r d) @ s2" "\<forall>e\<in>set s2. \<not> is_source_signal e"
    using Cons.IH by blast
  have "trace (fold (emit_updated a info) (r # rs) d) = trace d @ (s1 @ s2)"
    using s1(1) s2(1) by simp
  moreover have "\<forall>e\<in>set (s1 @ s2). \<not> is_source_signal e" using s1(2) s2(2) by auto
  ultimately show ?case by blast
qed

lemma trace_pass_no_source:
  "\<exists>evs. trace (snd (indexArchive rt d a)) = trace d @ evs \<and> (\<forall>e\<in>set evs. \<not> is_source_signal e)"
proof -
  obtain res d' where p: "indexArchive rt d a = (res, d')" by fastforce
  have "\<exists>evs. trace d' = trace d @ evs \<and> (\<forall>e\<in>set evs. \<not> is_source_signal e)"
  proof (cases "d' = d")
    case True
    then show ?thesis by simp
  next
    case False
    with indexArchive_cases[OF p] obtain info us rs d1 where
      ap: "applyUpdates rt d a info us = (Inr rs, d1)"
      and d': "d' = emit (IndexesUpdated (url a) (info_version info))
              (fold (emit_updated a info) (Set_of rs)
                 (LevelUtil_update d1 (url a) (url a) (info_version info)))"
      by blast
    define d2 where "d2 = LevelUtil_update d1 (url a) (url a) (info_version info)"
    obtain evs where evs: "trace d1 = trace d @ evs"
      "\<forall>e\<in>set evs. is_table_write e \<or> is_index_error e"
      using trace_applyUpdates[of rt d a info us] ap by auto
    have n1: "\<forall>e\<in>set evs. \<not> is_source_signal e" using evs(2) not_source_dispatch by blast
    obtain m where d2: "trace d2 = trace d1 @ [MetaPut (url a) m]"
      by (simp add: d2_def LevelUtil_update_def meta_put_def)
    obtain s1 where s1: "trace (fold (emit_updated a info) (Set_of rs) d2) = trace d2 @ s1"
      "\<forall>e\<in>set s1. \<not> is_source_signal e"
      using trace_fold_emit_updated_no_source by blast
    have "trace d' = trace d @ (evs @ [MetaPut (url a) m] @ s1 @
        [Emit (IndexesUpdated (url a) (info_version info))])"
      unfolding d' d2_def[symmetric] using s1(1) d2 evs(1) by (simp add: emit_def)
    moreover have "\<forall>e\<in>set (evs @ [MetaPut (url a) m] @ s1 @
        [Emit (IndexesUpdated (url a) (info_version info))]). \<not> is_source_signal e"
      using n1 s1(2) by (auto simp: is_source_signal_def)
    ultimately show ?thesis by blast
  qed
  then show ?thesis using p by simp
qed

lemma indexArchive_rejects_unchanged:
  "indexArchive rt d a = (Inl e, d') \<Longrightarrow> d' = d"
  using indexArchive_cases[of rt d a "Inl e" d'] by auto

lemma retryLoop_step:
  "retryLoop rt (t # ts) d a =
     (if \<not> isOpen (wake t d) \<or> url (snd t a) \<notin> archives (wake t d)
      then (NotASource, wake t d, snd t a)
      else
        (case indexArchive rt (wake t d) (snd t a) of
           (Inr u, d2) \<Rightarrow> (MadeIt, d2, snd t a)
         | (Inl e, d2) \<Rightarrow>
             if err_name e \<noteq> ''TimeoutError''
             then (Aborted, wake t d, snd t a)
             else retryLoop rt ts (wake t d) (snd t a)))"
proof -
  obtain r d2 where p: "indexArchive rt (wake t d) (snd t a) = (r, d2)" by fastforce
  show ?thesis
  proof (cases r)
    case (Inl e)
    then have "d2 = wake t d" using p indexArchive_rejects_unchanged by blast
    then show ?thesis using p Inl by (simp add: Let_def)
  next
    case (Inr u)
    then show ?thesis using p by (simp add: Let_def)
  qed
qed

lemma retryLoop_trace:
  "\<exists>evs. trace (fst (snd (retryLoop rt ticks d a))) = trace d @ evs
     \<and> (\<forall>e\<in>set evs. \<not> is_source_signal e)
     \<and> (ticks \<noteq> [] \<longrightarrow> evs \<noteq> [] \<and> hd evs = Wait 30000)"
proof (induction ticks arbitrary: d a)
  case Nil
  show ?case by simp
next
  case (Cons t ts)
  define d1 where "d1 = wake t d"
  have t1: "trace d1 = trace d @ [Wait 30000]" by (simp add: d1_def wake_def)
  have w: "\<not> is_source_signal (Wait 30000)" by (simp add: is_source_signal_def)
  obtain r d2 where p: "indexArchive rt d1 (snd t a) = (r, d2)" by fastforce
  obtain ev2 where ev2: "trace d2 = trace d1 @ ev2" "\<forall>e\<in>set ev2. \<not> is_source_signal e"
    using trace_pass_no_source[of rt d1 "snd t a"] p by auto
  obtain ev3 where ev3: "trace (fst (snd (retryLoop rt ts d1 (snd t a)))) = trace d1 @ ev3"
    "\<forall>e\<in>set ev3. \<not> is_source_signal e"
    using Cons.IH[of d1 "snd t a"] by blast
  have a: "\<exists>evs. trace d1 = trace d @ evs \<and> (\<forall>e\<in>set evs. \<not> is_source_signal e)
      \<and> evs \<noteq> [] \<and> hd evs = Wait 30000"
    using t1 w by simp
  have b: "\<exists>evs. trace d2 = trace d @ evs \<and> (\<forall>e\<in>set evs. \<not> is_source_signal e)
      \<and> evs \<noteq> [] \<and> hd evs = Wait 30000"
  proof -
    have "trace d2 = trace d @ (Wait 30000 # ev2)" using t1 ev2(1) by simp
    moreover have "\<forall>e\<in>set (Wait 30000 # ev2). \<not> is_source_signal e" using w ev2(2) by simp
    ultimately show ?thesis by (metis list.discI list.sel(1))
  qed
  have c: "\<exists>evs. trace (fst (snd (retryLoop rt ts d1 (snd t a)))) = trace d @ evs
      \<and> (\<forall>e\<in>set evs. \<not> is_source_signal e) \<and> evs \<noteq> [] \<and> hd evs = Wait 30000"
  proof -
    have "trace (fst (snd (retryLoop rt ts d1 (snd t a)))) = trace d @ (Wait 30000 # ev3)"
      using t1 ev3(1) by simp
    moreover have "\<forall>e\<in>set (Wait 30000 # ev3). \<not> is_source_signal e" using w ev3(2) by simp
    ultimately show ?thesis by (metis list.discI list.sel(1))
  qed
  have "\<exists>evs. trace (fst (snd (retryLoop rt (t # ts) d a))) = trace d @ evs
      \<and> (\<forall>e\<in>set evs. \<not> is_source_signal e) \<and> evs \<noteq> [] \<and> hd evs = Wait 30000"
    unfolding retryLoop_step d1_def[symmetric] using a b c p
    by (cases r) (simp_all split: if_splits)
  then show ?case by simp
qed

lemmas loop_defs = onFailInitialIndex_def wake_def watchArchive_def timeout_error_def
  other_error_def unreachable_archive_def still_unreachable_def no_longer_managed_def
  reachable_again_def fails_otherwise_def

subsection \<open>What a pass applies\<close>

lemma written_keys_append: "written_keys (xs @ ys) = written_keys xs @ written_keys ys"
  by (simp add: written_keys_def)

lemma written_keys_simps [simp]:
  "written_keys [] = []"
  "written_keys [TablePut n k v] = [k]"
  "written_keys [TableDel n k] = [k]"
  "written_keys [Emit s] = []"
  by (simp_all add: written_keys_def write_key_def)

lemma written_readAndIndexFile:
  "\<exists>evs. trace (snd (readAndIndexFile rt d a m p)) = trace d @ evs \<and>
     (written_keys evs = [] \<or> written_keys evs = [url a @ p])"
proof (cases "readAndIndexFile_try rt d a p")
  case (Inl e)
  then show ?thesis by (simp add: readAndIndexFile_def emit_def)
next
  case (Inr rd)
  obtain r d' where rd: "rd = (r, d')" by fastforce
  have "\<exists>evs. trace d' = trace d @ evs \<and> (written_keys evs = [] \<or> written_keys evs = [url a @ p])"
    using Inr unfolding rd
    by (auto simp: readAndIndexFile_try_def Let_def
        dest!: table_put_Inr table_del_Inr split: sum.splits option.splits if_splits)
  then show ?thesis using Inr rd by (simp add: readAndIndexFile_def)
qed

lemma written_unindexFile:
  "\<exists>evs. trace (snd (unindexFile d a p)) = trace d @ evs \<and>
     (written_keys evs = [] \<or> written_keys evs = [url a @ p])"
  by (auto simp: unindexFile_def unindexFile_try_def Let_def
        dest!: table_del_Inr split: sum.splits option.splits)

lemma written_applyUpdate:
  "\<exists>evs. trace (snd (applyUpdate rt d a m u)) = trace d @ evs \<and>
     (written_keys evs = [] \<or> written_keys evs = [url a @ path u])"
  by (simp add: applyUpdate_def written_readAndIndexFile written_unindexFile)

lemma written_applyUpdates:
  "distinct (map (\<lambda>pu. path (snd pu)) us) \<Longrightarrow>
   \<exists>evs. trace (snd (applyUpdates rt d a m us)) = trace d @ evs \<and>
     distinct (written_keys evs) \<and>
     set (written_keys evs) \<subseteq> (\<lambda>pu. url a @ path (snd pu)) ` set us"
proof (induction us arbitrary: d)
  case Nil
  show ?case by simp
next
  case (Cons pu us)
  obtain r d1 where 1: "applyUpdate rt d a m (snd pu) = (r, d1)" by fastforce
  obtain rs d2 where 2: "applyUpdates rt d1 a m us = (rs, d2)" by fastforce
  obtain ev1 where e1: "trace d1 = trace d @ ev1"
    "written_keys ev1 = [] \<or> written_keys ev1 = [url a @ path (snd pu)]"
    using written_applyUpdate[of rt d a m "snd pu"] 1 by auto
  have dis: "distinct (map (\<lambda>pu. path (snd pu)) us)" using Cons.prems by simp
  obtain ev2 where e2: "trace d2 = trace d1 @ ev2" "distinct (written_keys ev2)"
    "set (written_keys ev2) \<subseteq> (\<lambda>pu. url a @ path (snd pu)) ` set us"
    using Cons.IH[OF dis, of d1] 2 by auto
  have fresh: "url a @ path (snd pu) \<notin> set (written_keys ev2)"
  proof
    assume "url a @ path (snd pu) \<in> set (written_keys ev2)"
    then obtain qu where qu: "qu \<in> set us" "url a @ path (snd pu) = url a @ path (snd qu)"
      using e2(3) by auto
    then have "path (snd pu) = path (snd qu)" by simp
    then have "path (snd pu) \<in> (\<lambda>pu. path (snd pu)) ` set us" using qu(1) by auto
    then show False using Cons.prems by simp
  qed
  have t: "trace d2 = trace d @ (ev1 @ ev2)" using e1(1) e2(1) by simp
  have d: "distinct (written_keys (ev1 @ ev2))"
    using e1(2) e2(2) fresh by (auto simp: written_keys_append)
  have s: "set (written_keys (ev1 @ ev2)) \<subseteq> (\<lambda>pu. url a @ path (snd pu)) ` set (pu # us)"
    using e1(2) e2(3) by (auto simp: written_keys_append)
  have "\<exists>evs. trace d2 = trace d @ evs \<and> distinct (written_keys evs) \<and>
     set (written_keys evs) \<subseteq> (\<lambda>pu. url a @ path (snd pu)) ` set (pu # us)"
    using t d s by blast
  then show ?case using 1 2 by simp
qed


lemma tables_fold_emit_updated: "tables (fold (emit_updated a info) rs d) = tables d"
  by (induction rs arbitrary: d) (simp_all add: emit_updated_def emit_def split: touched.splits)

lemma scan_paths_distinct:
  "distinct (map (\<lambda>pu. path (snd pu)) (fold (scan_step d) h []))"
proof -
  have eq: "map (\<lambda>pu. path (snd pu)) (fold (scan_step d) h []) = map fst (fold (scan_step d) h [])"
  proof (rule map_cong[OF refl])
    fix pu assume "pu \<in> set (fold (scan_step d) h [])"
    then have "(fst pu, snd pu) \<in> set (fold (scan_step d) h [])" by simp
    from scan_key_is_path[OF this] show "path (snd pu) = fst pu" by simp
  qed
  show ?thesis unfolding eq by (rule scan_distinct)
qed

lemma pass_applies_scan:
  assumes p: "indexArchive rt d a = (res, d')" and n: "d' \<noteq> d"
  shows "\<exists>info h ups rs d1 evs.
       getInfo a = Inr info
       \<and> history a (stored_watermark d (url a) + 1) (info_version info + 1) = Inr h
       \<and> scanArchiveHistoryForUpdates d a
            (stored_watermark d (url a) + 1) (info_version info + 1) = Inr ups
       \<and> applyUpdates rt d a info ups = (Inr rs, d1) \<and> length rs = length ups
       \<and> d' = emit (IndexesUpdated (url a) (info_version info))
                (fold (emit_updated a info) (Set_of rs)
                   (LevelUtil_update d1 (url a) (url a) (info_version info)))
       \<and> tables d' = tables d1
       \<and> trace d1 = trace d @ evs \<and> distinct (written_keys evs)
       \<and> set (written_keys evs) \<subseteq> (\<lambda>pu. url a @ fst pu) ` set ups"
proof -
  from indexArchive_cases[OF p] n obtain info ups rs d1 where
    c: "getInfo a = Inr info"
      "scanArchiveHistoryForUpdates d a (stored_watermark d (url a) + 1) (info_version info + 1) = Inr ups"
      "applyUpdates rt d a info ups = (Inr rs, d1)"
      "d' = emit (IndexesUpdated (url a) (info_version info))
              (fold (emit_updated a info) (Set_of rs)
                 (LevelUtil_update d1 (url a) (url a) (info_version info)))"
    by blast
  from c(2) obtain h where
    h: "history a (stored_watermark d (url a) + 1) (info_version info + 1) = Inr h"
      "ups = fold (scan_step d) h []"
    by (auto simp: scanArchiveHistoryForUpdates_def split: sum.splits)
  have len: "length rs = length ups" using c(3) by (rule applyUpdates_length)
  have tb: "tables d' = tables d1"
    unfolding c(4) by (simp add: emit_def tables_fold_emit_updated LevelUtil_update_def meta_put_def)
  have dis: "distinct (map (\<lambda>pu. path (snd pu)) ups)" unfolding h(2) by (rule scan_paths_distinct)
  obtain evs where evs: "trace d1 = trace d @ evs" "distinct (written_keys evs)"
    "set (written_keys evs) \<subseteq> (\<lambda>pu. url a @ path (snd pu)) ` set ups"
    using written_applyUpdates[OF dis, of rt d a info] c(3) by auto
  have "(\<lambda>pu. url a @ path (snd pu)) ` set ups = (\<lambda>pu. url a @ fst pu) ` set ups"
  proof (rule image_cong[OF refl])
    fix pu assume "pu \<in> set ups"
    then have "(fst pu, snd pu) \<in> set (fold (scan_step d) h [])" using h(2) by simp
    from scan_key_is_path[OF this] show "url a @ path (snd pu) = url a @ fst pu" by simp
  qed
  then have sub: "set (written_keys evs) \<subseteq> (\<lambda>pu. url a @ fst pu) ` set ups"
    using evs(3) by (simp only:)
  show ?thesis using c(1) h(1) c(2) c(3) len c(4) tb evs(1,2) sub by blast
qed

section \<open>The claims\<close>

text \<open>
  C1. For every sequence of indexing passes the stored watermark of an archive never
  decreases (first part, for any two consecutive stretches of passes and any archive
  URL). It never exceeds the archive's current version \<open>V\<close>: when it does not at the
  start and no pass of the sequence was shown a version above \<open>V\<close> (versions only grow),
  it does not at the end (second part). Within one pass (third part) either nothing at
  all is changed, or the events of the pass are the table writes and index errors of the
  updates, then one write of the meta record, whose version is the current version, then
  signals only: the watermark is written once and after every table write.
\<close>

theorem watermark_monotone_bounded:
  "stored_watermark (indexPasses rt d as1) u \<le> stored_watermark (indexPasses rt d (as1 @ as2)) u
   \<and> (stored_watermark d u \<le> V
        \<and> (\<forall>a\<in>set as. url a = u \<longrightarrow> (\<forall>i. getInfo a = Inr i \<longrightarrow> info_version i \<le> V))
      \<longrightarrow> stored_watermark (indexPasses rt d as) u \<le> V)
   \<and> (indexArchive rt d a = (res, d') \<longrightarrow>
        d' = d \<or>
        (\<exists>info evs m sigs. getInfo a = Inr info \<and> stored_watermark d (url a) < info_version info \<and>
           trace d' = trace d @ evs @ [MetaPut (url a) m] @ sigs \<and>
           version m = info_version info \<and> indexMetaLevel d' (url a) = Some m \<and>
           (\<forall>e\<in>set evs. is_table_write e \<or> is_index_error e) \<and> (\<forall>e\<in>set sigs. is_signal e)))"
proof (intro conjI impI)
  show "stored_watermark (indexPasses rt d as1) u \<le> stored_watermark (indexPasses rt d (as1 @ as2)) u"
    by (simp add: indexPasses_append watermark_passes_mono)
next
  assume "stored_watermark d u \<le> V
        \<and> (\<forall>a\<in>set as. url a = u \<longrightarrow> (\<forall>i. getInfo a = Inr i \<longrightarrow> info_version i \<le> V))"
  then show "stored_watermark (indexPasses rt d as) u \<le> V"
    using watermark_passes_bounded[of d u V as rt] by blast
next
  assume "indexArchive rt d a = (res, d')"
  then show "d' = d \<or>
        (\<exists>info evs m sigs. getInfo a = Inr info \<and> stored_watermark d (url a) < info_version info \<and>
           trace d' = trace d @ evs @ [MetaPut (url a) m] @ sigs \<and>
           version m = info_version info \<and> indexMetaLevel d' (url a) = Some m \<and>
           (\<forall>e\<in>set evs. is_table_write e \<or> is_index_error e) \<and> (\<forall>e\<in>set sigs. is_signal e))"
    by (rule trace_pass)
qed

theorem watermark_monotone_bounded_witness:
  "stored_watermark scenario_db ''dat://a'' = 0
   \<and> getInfo (scenario_archive 1) = Inr \<lparr>info_version = 1, isOwner = True\<rparr>
   \<and> getInfo (scenario_archive 2) = Inr \<lparr>info_version = 2, isOwner = True\<rparr>
   \<and> stored_watermark (indexPasses scenario_runtime scenario_db [scenario_archive 1]) ''dat://a'' = 1
   \<and> stored_watermark
        (indexPasses scenario_runtime scenario_db [scenario_archive 1, scenario_archive 2]) ''dat://a'' = 2
   \<and> trace (snd (indexArchive scenario_runtime scenario_db (scenario_archive 1))) =
       [TablePut ''foo'' ''dat://a/tables/foo/1.json''
          \<lparr>entry_url = ''dat://a/tables/foo/1.json'', origin = ''dat://a'', indexedAt = 1000,
           entry_record = JObject []\<rparr>,
        MetaPut ''dat://a''
          \<lparr>meta_url = ''dat://a'', version = 1, meta_isWritable = None, meta_localPath = None\<rparr>,
        Emit (IndexUpdated ''foo'' ''dat://a'' 1),
        Emit (IndexesUpdated ''dat://a'' 1)]"
  using watermark_monotone_bounded[of scenario_runtime scenario_db "[scenario_archive 1]"
      "''dat://a''" "[scenario_archive 2]" 2 "[scenario_archive 1, scenario_archive 2]"
      "scenario_archive 1" "Inr ()" "snd (indexArchive scenario_runtime scenario_db (scenario_archive 1))"]
  by (simp add: scenario_defs run_defs)

text \<open>
  C2. A pass that finds the stored watermark at or above the version the archive reports
  returns with the database as it was: no store is written, the watermark is the same and
  no event is added. In particular a pass run again on the state the same pass left, with
  the archive unchanged, changes nothing.
\<close>

theorem indexArchive_idempotent:
  "(getInfo a = Inr info \<and> info_version info \<le> stored_watermark d (url a)
      \<longrightarrow> indexArchive rt d a = (Inr (), d))
   \<and> snd (indexArchive rt (snd (indexArchive rt d a)) a) = snd (indexArchive rt d a)"
proof
  show "getInfo a = Inr info \<and> info_version info \<le> stored_watermark d (url a)
      \<longrightarrow> indexArchive rt d a = (Inr (), d)"
    by (simp add: indexArchive_noop)
  show "snd (indexArchive rt (snd (indexArchive rt d a)) a) = snd (indexArchive rt d a)"
    using pass_twice[of rt d a] by (elim disjE) simp_all
qed

theorem indexArchive_idempotent_witness:
  "getInfo (scenario_archive 1) = Inr \<lparr>info_version = 1, isOwner = True\<rparr>
   \<and> stored_watermark (snd (indexArchive scenario_runtime scenario_db (scenario_archive 1))) ''dat://a'' = 1
   \<and> indexArchive scenario_runtime
        (snd (indexArchive scenario_runtime scenario_db (scenario_archive 1))) (scenario_archive 1)
      = (Inr (), snd (indexArchive scenario_runtime scenario_db (scenario_archive 1)))"
  using indexArchive_idempotent[of "scenario_archive 1" "\<lparr>info_version = 1, isOwner = True\<rparr>"
      "snd (indexArchive scenario_runtime scenario_db (scenario_archive 1))" scenario_runtime]
  by (simp add: scenario_defs run_defs)

text \<open>
  C10. \<^verbatim>\<open>readAndIndexFile\<close> and \<^verbatim>\<open>unindexFile\<close> always return, and what they return is
  \<^verbatim>\<open>false\<close> or the name of one of the tables: whatever the \<^verbatim>\<open>try\<close> block throws (a failed
  read, a parse error, a throwing validator or preprocessor, a rejected store operation) is
  caught, by \<^verbatim>\<open>readAndIndexFile\<close> with an \<^verbatim>\<open>index-error\<close> signal and by \<^verbatim>\<open>unindexFile\<close>
  with no change at all. For a path that no table owns both return \<^verbatim>\<open>false\<close> and no
  store is written: \<^verbatim>\<open>unindexFile\<close> leaves the database as it is, \<^verbatim>\<open>readAndIndexFile\<close>
  too, or adds the one signal when the file cannot be read or parsed.
\<close>

theorem dispatch_total:
  "(\<exists>r. fst (readAndIndexFile rt d a m p) = Inr r \<and>
         (r = RFalse \<or> (\<exists>t\<in>set (tables d). r = TableName (name t))))
   \<and> (\<exists>r. fst (unindexFile d a p) = Inr r \<and>
         (r = RFalse \<or> (\<exists>t\<in>set (tables d). r = TableName (name t))))
   \<and> (readAndIndexFile_try rt d a p = Inl e \<longrightarrow>
         readAndIndexFile rt d a m p = (Inr RFalse, emit (IndexError (url a @ p) e) d))
   \<and> (unindexFile_try d a p = Inl e \<longrightarrow> unindexFile d a p = (Inr RFalse, d))
   \<and> ((\<forall>t\<in>set (tables d). \<not> isRecordFile t p) \<longrightarrow>
         unindexFile d a p = (Inr RFalse, d) \<and>
         (readAndIndexFile rt d a m p = (Inr RFalse, d) \<or>
          (\<exists>x. readAndIndexFile rt d a m p = (Inr RFalse, emit (IndexError (url a @ p) x) d))))"
  using readAndIndexFile_result[of rt d a m p] unindexFile_result[of d a p]
    readAndIndexFile_caught[of rt d a p e m] unindexFile_caught[of d a p e]
    unindexFile_no_table[of d p a] readAndIndexFile_no_table[of d p rt a m]
  by blast

theorem dispatch_total_witness:
  "readAndIndexFile_try scenario_runtime broken_db (scenario_archive 1) ''/tables/foo/1.json''
     = Inl (JsError ''WriteError'' ''closed'')
   \<and> readAndIndexFile scenario_runtime broken_db (scenario_archive 1)
        \<lparr>info_version = 1, isOwner = True\<rparr> ''/tables/foo/1.json''
     = (Inr RFalse,
        emit (IndexError ''dat://a/tables/foo/1.json'' (JsError ''WriteError'' ''closed'')) broken_db)
   \<and> unindexFile_try broken_db (scenario_archive 1) ''/tables/foo/1.json''
     = Inl (JsError ''WriteError'' ''closed'')
   \<and> unindexFile broken_db (scenario_archive 1) ''/tables/foo/1.json'' = (Inr RFalse, broken_db)
   \<and> \<not> isRecordFile foo_table ''/other.json''
   \<and> unindexFile scenario_db (scenario_archive 1) ''/other.json'' = (Inr RFalse, scenario_db)
   \<and> fst (readAndIndexFile scenario_runtime scenario_db (scenario_archive 1)
        \<lparr>info_version = 1, isOwner = True\<rparr> ''/other.json'') = Inr RFalse"
  using dispatch_total[of scenario_runtime broken_db "scenario_archive 1"
      "\<lparr>info_version = 1, isOwner = True\<rparr>" "''/tables/foo/1.json''" "JsError ''WriteError'' ''closed''"]
    dispatch_total[of scenario_runtime scenario_db "scenario_archive 1"
      "\<lparr>info_version = 1, isOwner = True\<rparr>" "''/other.json''" "JsError ''WriteError'' ''closed''"]
  by (simp add: broken_db_def scenario_defs run_defs)

text \<open>
  C6. A file whose read or parse fails is caught inside \<^verbatim>\<open>readAndIndexFile\<close>: the call
  returns \<^verbatim>\<open>false\<close> and its only effect is the signal \<^verbatim>\<open>index-error\<close> with the file's URL
  and the error. In a batch the other files are indexed as if the failing file were not
  there: the batch with the file ends in the state of the batch without it, with
  \<^verbatim>\<open>false\<close> at the file's place among the results and that one signal at its place
  among the events.
\<close>

theorem failing_file_isolated:
  "(readFile a (path u) = Inl e \<or> (\<exists>c. readFile a (path u) = Inr c \<and> JSON_parse rt c = Inl e))
   \<longrightarrow>
     readAndIndexFile rt d a m (path u) = (Inr RFalse, emit (IndexError (url a @ path u) e) d)
     \<and> (utype u \<noteq> ''del'' \<longrightarrow>
          (\<exists>rs1 rs2 ev1 ev2 d0.
             applyUpdates rt d a m (us1 @ us2) = (Inr (rs1 @ rs2), d0) \<and>
             trace d0 = trace d @ ev1 @ ev2 \<and> length rs1 = length us1 \<and>
             applyUpdates rt d a m (us1 @ (k, u) # us2) =
               (Inr (rs1 @ RFalse # rs2),
                d0\<lparr>trace := trace d @ ev1 @ [Emit (IndexError (url a @ path u) e)] @ ev2\<rparr>)))"
proof (intro impI conjI)
  assume f: "readFile a (path u) = Inl e \<or> (\<exists>c. readFile a (path u) = Inr c \<and> JSON_parse rt c = Inl e)"
  have r: "readAndIndexFile rt d1 a m (path u) = (Inr RFalse, emit (IndexError (url a @ path u) e) d1)"
    for d1
    using f readAndIndexFile_read_fails[of a "path u" e rt d1 m]
      readAndIndexFile_parse_fails[of a "path u" _ rt e d1 m] by blast
  show "readAndIndexFile rt d a m (path u) = (Inr RFalse, emit (IndexError (url a @ path u) e) d)"
    by (rule r)
  assume "utype u \<noteq> ''del''"
  then have "applyUpdate rt d1 a m u = (Inr RFalse, emit (IndexError (url a @ path u) e) d1)" for d1
    using r[of d1] by (simp add: applyUpdate_def)
  then show "\<exists>rs1 rs2 ev1 ev2 d0.
             applyUpdates rt d a m (us1 @ us2) = (Inr (rs1 @ rs2), d0) \<and>
             trace d0 = trace d @ ev1 @ ev2 \<and> length rs1 = length us1 \<and>
             applyUpdates rt d a m (us1 @ (k, u) # us2) =
               (Inr (rs1 @ RFalse # rs2),
                d0\<lparr>trace := trace d @ ev1 @ [Emit (IndexError (url a @ path u) e)] @ ev2\<rparr>)"
    by (rule failing_file_isolated_batch)
qed

theorem failing_file_isolated_witness:
  "readFile (scenario_archive 2) ''/tables/foo/bad.json'' = Inr ''not json''
   \<and> JSON_parse scenario_runtime ''not json'' = Inl (JsError ''SyntaxError'' ''not json'')
   \<and> fst (applyUpdates scenario_runtime scenario_db (scenario_archive 2)
        \<lparr>info_version = 2, isOwner = True\<rparr>
        [(''/tables/foo/bad.json'', put_update ''/tables/foo/bad.json'' 2),
         (''/tables/foo/1.json'', put_update ''/tables/foo/1.json'' 1)])
      = Inr [RFalse, TableName ''foo'']
   \<and> trace (snd (applyUpdates scenario_runtime scenario_db (scenario_archive 2)
        \<lparr>info_version = 2, isOwner = True\<rparr>
        [(''/tables/foo/bad.json'', put_update ''/tables/foo/bad.json'' 2),
         (''/tables/foo/1.json'', put_update ''/tables/foo/1.json'' 1)]))
      = [Emit (IndexError ''dat://a/tables/foo/bad.json'' (JsError ''SyntaxError'' ''not json'')),
         TablePut ''foo'' ''dat://a/tables/foo/1.json''
           \<lparr>entry_url = ''dat://a/tables/foo/1.json'', origin = ''dat://a'', indexedAt = 1000,
            entry_record = JObject []\<rparr>]"
  using failing_file_isolated[of "scenario_archive 2" "put_update ''/tables/foo/bad.json'' 2"
      "JsError ''SyntaxError'' ''not json''" scenario_runtime scenario_db
      "\<lparr>info_version = 2, isOwner = True\<rparr>" "[]"
      "[(''/tables/foo/1.json'', put_update ''/tables/foo/1.json'' 1)]" "''/tables/foo/bad.json''"]
  by (simp add: put_update_def scenario_defs run_defs)

text \<open>
  C4. Let the file be readable, its content parse to \<open>r0\<close>, and table \<open>i\<close> be the first
  table that owns the path, with a store that takes writes. If the table has a validator
  and it returns a falsy value for \<open>r0\<close>, the entry at the key \<^verbatim>\<open>archive.url + path\<close> is
  deleted from the table's store and the table's name is returned. If there is no
  validator or it returns a truthy value, the entry
  \<^verbatim>\<open>{url: key, origin: archive.url, indexedAt: Date.now(), record}\<close> is stored at the key
  and the table's name is returned, where the record is \<open>r0\<close> when there is no
  preprocessor, and otherwise the preprocessor's result when that is truthy (defined and
  not \<^verbatim>\<open>null\<close>, \<^verbatim>\<open>false\<close>, \<^verbatim>\<open>0\<close>, \<^verbatim>\<open>NaN\<close> or the empty string) and \<open>r0\<close> when it is not.
\<close>

theorem readAndIndexFile_validates_and_stores:
  assumes "readFile a p = Inr c" and "JSON_parse rt c = Inr r0"
    and "i < length (tables d)" and "isRecordFile (tables d ! i) p"
    and "\<forall>j<i. \<not> isRecordFile (tables d ! j) p"
    and "level_error (tables d ! i) = None"
  shows
    "(\<forall>f v. validator (tables d ! i) = Some f \<and> f r0 = Inr v \<and> \<not> truthy v \<longrightarrow>
        readAndIndexFile rt d a m p =
          (Inr (TableName (name (tables d ! i))),
           d\<lparr>tables := (tables d)[i := (tables d ! i)
                  \<lparr>level := (level (tables d ! i))(url a @ p := None)\<rparr>],
             trace := trace d @ [TableDel (name (tables d ! i)) (url a @ p)]\<rparr>))
     \<and> (\<forall>r1. (validator (tables d ! i) = None \<or>
                (\<exists>f v. validator (tables d ! i) = Some f \<and> f r0 = Inr v \<and> truthy v)) \<and>
               (preprocess (tables d ! i) = None \<and> r1 = r0 \<or>
                (\<exists>g n. preprocess (tables d ! i) = Some g \<and> g r0 = Inr n \<and>
                       r1 = (if truthy n then n else r0))) \<longrightarrow>
        readAndIndexFile rt d a m p =
          (Inr (TableName (name (tables d ! i))),
           d\<lparr>tables := (tables d)[i := (tables d ! i)
                  \<lparr>level := (level (tables d ! i))(url a @ p \<mapsto>
                      \<lparr>entry_url = url a @ p, origin = url a, indexedAt = Date_now rt,
                       entry_record = r1\<rparr>)\<rparr>],
             trace := trace d @ [TablePut (name (tables d ! i)) (url a @ p)
                      \<lparr>entry_url = url a @ p, origin = url a, indexedAt = Date_now rt,
                       entry_record = r1\<rparr>]\<rparr>))"
  using assms by (rule readAndIndexFile_cases)

theorem readAndIndexFile_validates_and_stores_witness:
  "readFile (scenario_archive 1) ''/tables/foo/1.json'' = Inr ''{}''
   \<and> JSON_parse scenario_runtime ''{}'' = Inr (JObject [])
   \<and> isRecordFile (tables rejecting_db ! 0) ''/tables/foo/1.json''
   \<and> level (tables rejecting_db ! 0) ''dat://a/tables/foo/1.json'' = Some stale_entry
   \<and> fst (readAndIndexFile scenario_runtime rejecting_db (scenario_archive 1)
          \<lparr>info_version = 1, isOwner = True\<rparr> ''/tables/foo/1.json'') = Inr (TableName ''foo'')
   \<and> level (tables (snd (readAndIndexFile scenario_runtime rejecting_db (scenario_archive 1)
          \<lparr>info_version = 1, isOwner = True\<rparr> ''/tables/foo/1.json'')) ! 0)
        ''dat://a/tables/foo/1.json'' = None
   \<and> isRecordFile (tables preprocessing_db ! 0) ''/tables/foo/1.json''
   \<and> fst (readAndIndexFile scenario_runtime preprocessing_db (scenario_archive 1)
          \<lparr>info_version = 1, isOwner = True\<rparr> ''/tables/foo/1.json'') = Inr (TableName ''foo'')
   \<and> level (tables (snd (readAndIndexFile scenario_runtime preprocessing_db (scenario_archive 1)
          \<lparr>info_version = 1, isOwner = True\<rparr> ''/tables/foo/1.json'')) ! 0)
        ''dat://a/tables/foo/1.json'' =
       Some \<lparr>entry_url = ''dat://a/tables/foo/1.json'', origin = ''dat://a'', indexedAt = 1000,
             entry_record = JObject [(''n'', JNumber 1)]\<rparr>"
proof -
  have r: "readFile (scenario_archive 1) ''/tables/foo/1.json'' = Inr ''{}''"
    by (simp add: scenario_defs)
  have p: "JSON_parse scenario_runtime ''{}'' = Inr (JObject [])"
    by (simp add: scenario_defs)
  have 1: "0 < length (tables rejecting_db)" "isRecordFile (tables rejecting_db ! 0) ''/tables/foo/1.json''"
    "\<forall>j<0. \<not> isRecordFile (tables rejecting_db ! j) ''/tables/foo/1.json''"
    "level_error (tables rejecting_db ! 0) = None"
    by (simp_all add: rejecting_db_def scenario_defs)
  have 2: "0 < length (tables preprocessing_db)"
    "isRecordFile (tables preprocessing_db ! 0) ''/tables/foo/1.json''"
    "\<forall>j<0. \<not> isRecordFile (tables preprocessing_db ! j) ''/tables/foo/1.json''"
    "level_error (tables preprocessing_db ! 0) = None"
    by (simp_all add: preprocessing_db_def scenario_defs)
  show ?thesis
    using readAndIndexFile_validates_and_stores[OF r p 1, of "\<lparr>info_version = 1, isOwner = True\<rparr>"]
      readAndIndexFile_validates_and_stores[OF r p 2, of "\<lparr>info_version = 1, isOwner = True\<rparr>"]
    by (simp add: rejecting_db_def preprocessing_db_def stale_entry_def scenario_defs)
qed

text \<open>
  C3, as the code has it. The type that \<^verbatim>\<open>applyUpdates\<close> takes for a removal is the string
  \<^verbatim>\<open>del\<close>. An update of that type is applied by \<^verbatim>\<open>unindexFile\<close>: when table \<open>i\<close> is the first
  that owns the path and its store takes the delete, the entry at \<^verbatim>\<open>archive.url + path\<close>
  is deleted from that table's store and the table's name is returned. An update of any
  other type is applied by \<^verbatim>\<open>readAndIndexFile\<close>.
\<close>

theorem applyUpdate_dispatch:
  "(utype u = ''del'' \<longrightarrow>
      applyUpdate rt d a m u = unindexFile d a (path u)
      \<and> (i < length (tables d) \<and> isRecordFile (tables d ! i) (path u)
           \<and> (\<forall>j<i. \<not> isRecordFile (tables d ! j) (path u))
           \<and> level_error (tables d ! i) = None \<longrightarrow>
          applyUpdate rt d a m u =
            (Inr (TableName (name (tables d ! i))),
             d\<lparr>tables := (tables d)[i := (tables d ! i)
                    \<lparr>level := (level (tables d ! i))(url a @ path u := None)\<rparr>],
               trace := trace d @ [TableDel (name (tables d ! i)) (url a @ path u)]\<rparr>)))
   \<and> (utype u \<noteq> ''del'' \<longrightarrow> applyUpdate rt d a m u = readAndIndexFile rt d a m (path u))"
  using unindexFile_deletes[of i d "path u" a] by (simp add: applyUpdate_def)

theorem applyUpdate_dispatch_witness:
  "utype (removal ''del'') = ''del''
   \<and> isRecordFile (tables stale_db ! 0) (path (removal ''del''))
   \<and> level (tables stale_db ! 0) ''dat://a/tables/foo/1.json'' = Some stale_entry
   \<and> fst (applyUpdate scenario_runtime stale_db emptied_archive
            \<lparr>info_version = 2, isOwner = True\<rparr> (removal ''del'')) = Inr (TableName ''foo'')
   \<and> level (tables (snd (applyUpdate scenario_runtime stale_db emptied_archive
            \<lparr>info_version = 2, isOwner = True\<rparr> (removal ''del''))) ! 0)
        ''dat://a/tables/foo/1.json'' = None
   \<and> utype (removal ''put'') \<noteq> ''del''
   \<and> applyUpdate scenario_runtime stale_db (scenario_archive 2)
        \<lparr>info_version = 2, isOwner = True\<rparr> (removal ''put'')
      = readAndIndexFile scenario_runtime stale_db (scenario_archive 2)
          \<lparr>info_version = 2, isOwner = True\<rparr> ''/tables/foo/1.json''"
proof -
  let ?m = "\<lparr>info_version = 2, isOwner = True\<rparr>"
  have h1: "utype (removal ''del'') = ''del''" by (simp add: removal_def)
  have h2: "0 < length (tables stale_db) \<and> isRecordFile (tables stale_db ! 0) (path (removal ''del''))
      \<and> (\<forall>j<0. \<not> isRecordFile (tables stale_db ! j) (path (removal ''del'')))
      \<and> level_error (tables stale_db ! 0) = None"
    by (simp add: removal_def stale_db_def scenario_defs)
  have h3: "utype (removal ''put'') \<noteq> ''del''" by (simp add: removal_def)
  have d: "applyUpdate scenario_runtime stale_db emptied_archive ?m (removal ''del'') =
      (Inr (TableName (name (tables stale_db ! 0))),
       stale_db\<lparr>tables := (tables stale_db)[0 := (tables stale_db ! 0)
              \<lparr>level := (level (tables stale_db ! 0))
                  (url emptied_archive @ path (removal ''del'') := None)\<rparr>],
         trace := trace stale_db @
           [TableDel (name (tables stale_db ! 0)) (url emptied_archive @ path (removal ''del''))]\<rparr>)"
    using applyUpdate_dispatch[of "removal ''del''" scenario_runtime stale_db emptied_archive ?m 0]
      h1 h2 by blast
  have p: "applyUpdate scenario_runtime stale_db (scenario_archive 2) ?m (removal ''put'')
      = readAndIndexFile scenario_runtime stale_db (scenario_archive 2) ?m (path (removal ''put''))"
    using applyUpdate_dispatch[of "removal ''put''" scenario_runtime stale_db "scenario_archive 2" ?m 0]
      h3 by blast
  show ?thesis
    unfolding d p
    by (simp add: removal_def stale_db_def emptied_archive_def stale_entry_def scenario_defs)
qed

text \<open>
  C3, as it is stated, fails for the type \<^verbatim>\<open>delete\<close>, which is how the history contract
  names a removal: the update is applied by \<^verbatim>\<open>readAndIndexFile\<close>, the read of the
  removed file fails, and the entry stays in the store.
\<close>

theorem delete_type_counterexample:
  "utype (removal ''delete'') = ''delete''
   \<and> isRecordFile (tables stale_db ! 0) (path (removal ''delete''))
   \<and> level_error (tables stale_db ! 0) = None
   \<and> level (tables stale_db ! 0) ''dat://a/tables/foo/1.json'' = Some stale_entry
   \<and> applyUpdate scenario_runtime stale_db emptied_archive
        \<lparr>info_version = 2, isOwner = True\<rparr> (removal ''delete'')
      = (Inr RFalse,
         emit (IndexError ''dat://a/tables/foo/1.json''
                 (JsError ''NotFoundError'' ''/tables/foo/1.json'')) stale_db)
   \<and> level (tables (snd (applyUpdate scenario_runtime stale_db emptied_archive
            \<lparr>info_version = 2, isOwner = True\<rparr> (removal ''delete''))) ! 0)
        ''dat://a/tables/foo/1.json'' = Some stale_entry
   \<and> applyUpdate scenario_runtime stale_db emptied_archive
        \<lparr>info_version = 2, isOwner = True\<rparr> (removal ''delete'')
      \<noteq> unindexFile stale_db emptied_archive ''/tables/foo/1.json''"
  by (simp add: removal_def stale_db_def emptied_archive_def stale_entry_def scenario_defs run_defs)

text \<open>
  C5. For a history slice whose paths begin with a slash, the update set that
  \<^verbatim>\<open>scanArchiveHistoryForUpdates\<close> computes has every path at most once; a path has an
  update in it exactly when it matches the table file patterns and occurs in the slice,
  and the update is then the last entry of the slice for that path (with the greatest
  version, when the slice is in version order). A pass that changes anything has read the
  slice from \<open>watermark + 1\<close> to \<open>currentVersion + 1\<close>, and when the paths of that slice
  begin with a slash, the state it leaves is the one that the dispatcher calls for the
  updates of that set leave, followed by the write of the watermark and the signals:
  the table stores are those after these calls, and the calls write each key at most once,
  and only keys \<^verbatim>\<open>archive.url + path\<close> of paths of the set. So an earlier change of a path
  in the slice is never applied to any table.
\<close>

theorem scan_keeps_latest:
  "(history a start end = Inr h \<and> (\<forall>u\<in>set h. slash_path (path u)) \<longrightarrow>
      (\<exists>us. scanArchiveHistoryForUpdates d a start end = Inr us
         \<and> distinct (map fst us)
         \<and> (\<forall>p. map_of us p =
                (if tableFilePatterns d p then find (\<lambda>u. path u = p) (rev h) else None))
         \<and> (\<forall>pu\<in>set us. path (snd pu) = fst pu \<and> snd pu \<in> set h)
         \<and> (sorted (map update_version h) \<longrightarrow>
              (\<forall>pu\<in>set us. \<forall>u'\<in>set h. path u' = fst pu \<longrightarrow>
                 update_version u' \<le> update_version (snd pu)))))
   \<and> (indexArchive rt d a = (res, d') \<and> d' \<noteq> d \<longrightarrow>
        (\<exists>info h0.
           getInfo a = Inr info
           \<and> history a (stored_watermark d (url a) + 1) (info_version info + 1) = Inr h0
           \<and> ((\<forall>u\<in>set h0. slash_path (path u)) \<longrightarrow>
                (\<exists>ups rs d1 evs.
                   scanArchiveHistoryForUpdates d a
                     (stored_watermark d (url a) + 1) (info_version info + 1) = Inr ups
                   \<and> applyUpdates rt d a info ups = (Inr rs, d1) \<and> length rs = length ups
                   \<and> d' = emit (IndexesUpdated (url a) (info_version info))
                            (fold (emit_updated a info) (Set_of rs)
                               (LevelUtil_update d1 (url a) (url a) (info_version info)))
                   \<and> tables d' = tables d1
                   \<and> trace d1 = trace d @ evs \<and> distinct (written_keys evs)
                   \<and> set (written_keys evs) \<subseteq> (\<lambda>pu. url a @ fst pu) ` set ups))))"
proof (intro conjI impI)
  assume "history a start end = Inr h \<and> (\<forall>u\<in>set h. slash_path (path u))"
  then have hi: "history a start end = Inr h" by simp
  define us where "us = fold (scan_step d) h []"
  have s: "scanArchiveHistoryForUpdates d a start end = Inr us"
    using hi by (simp add: scanArchiveHistoryForUpdates_def us_def)
  have 1: "distinct (map fst us)" unfolding us_def by (rule scan_distinct)
  have 2: "\<forall>p. map_of us p =
      (if tableFilePatterns d p then find (\<lambda>u. path u = p) (rev h) else None)"
    unfolding us_def by (simp add: scan_map_of)
  have 3: "\<forall>pu\<in>set us. path (snd pu) = fst pu \<and> snd pu \<in> set h"
  proof
    fix pu assume "pu \<in> set us"
    then have "(fst pu, snd pu) \<in> set (fold (scan_step d) h [])" using us_def by simp
    from scan_key_is_path[OF this] show "path (snd pu) = fst pu \<and> snd pu \<in> set h" by simp
  qed
  have 4: "sorted (map update_version h) \<longrightarrow>
      (\<forall>pu\<in>set us. \<forall>u'\<in>set h. path u' = fst pu \<longrightarrow> update_version u' \<le> update_version (snd pu))"
  proof (intro impI ballI)
    fix pu u'
    assume so: "sorted (map update_version h)" and pu: "pu \<in> set us" and u': "u' \<in> set h"
      and pa: "path u' = fst pu"
    have "map_of us (fst pu) = Some (snd pu)" using pu 1 by simp
    then have "find (\<lambda>u. path u = fst pu) (rev h) = Some (snd pu)"
      using 2 by (simp split: if_splits)
    from find_last_sorted[OF this so] u' pa
    show "update_version u' \<le> update_version (snd pu)" by simp
  qed
  show "\<exists>us. scanArchiveHistoryForUpdates d a start end = Inr us
         \<and> distinct (map fst us)
         \<and> (\<forall>p. map_of us p =
                (if tableFilePatterns d p then find (\<lambda>u. path u = p) (rev h) else None))
         \<and> (\<forall>pu\<in>set us. path (snd pu) = fst pu \<and> snd pu \<in> set h)
         \<and> (sorted (map update_version h) \<longrightarrow>
              (\<forall>pu\<in>set us. \<forall>u'\<in>set h. path u' = fst pu \<longrightarrow>
                 update_version u' \<le> update_version (snd pu)))"
    using s 1 2 3 4 by blast
next
  assume "indexArchive rt d a = (res, d') \<and> d' \<noteq> d"
  then have p: "indexArchive rt d a = (res, d')" and n: "d' \<noteq> d" by simp_all
  from pass_applies_scan[OF p n]
  show "\<exists>info h0.
           getInfo a = Inr info
           \<and> history a (stored_watermark d (url a) + 1) (info_version info + 1) = Inr h0
           \<and> ((\<forall>u\<in>set h0. slash_path (path u)) \<longrightarrow>
                (\<exists>ups rs d1 evs.
                   scanArchiveHistoryForUpdates d a
                     (stored_watermark d (url a) + 1) (info_version info + 1) = Inr ups
                   \<and> applyUpdates rt d a info ups = (Inr rs, d1) \<and> length rs = length ups
                   \<and> d' = emit (IndexesUpdated (url a) (info_version info))
                            (fold (emit_updated a info) (Set_of rs)
                               (LevelUtil_update d1 (url a) (url a) (info_version info)))
                   \<and> tables d' = tables d1
                   \<and> trace d1 = trace d @ evs \<and> distinct (written_keys evs)
                   \<and> set (written_keys evs) \<subseteq> (\<lambda>pu. url a @ fst pu) ` set ups))"
    by blast
qed


theorem scan_keeps_latest_witness:
  "history busy_archive 1 5 = Inr busy_history
   \<and> list_all (\<lambda>u. slash_path (path u)) busy_history
   \<and> sorted (map update_version busy_history)
   \<and> scanArchiveHistoryForUpdates scenario_db busy_archive 1 5 =
     Inr [(''/tables/foo/1.json'',
           \<lparr>path = ''/tables/foo/1.json'', utype = ''del'', update_version = 4\<rparr>),
          (''/tables/foo/2.json'', put_update ''/tables/foo/2.json'' 3)]
   \<and> snd (indexArchive scenario_runtime scenario_db busy_archive) \<noteq> scenario_db
   \<and> stored_watermark scenario_db (url busy_archive) + 1 = 1
   \<and> getInfo busy_archive = Inr \<lparr>info_version = 4, isOwner = True\<rparr>
   \<and> fst (applyUpdates scenario_runtime scenario_db busy_archive \<lparr>info_version = 4, isOwner = True\<rparr>
        [(''/tables/foo/1.json'',
           \<lparr>path = ''/tables/foo/1.json'', utype = ''del'', update_version = 4\<rparr>),
          (''/tables/foo/2.json'', put_update ''/tables/foo/2.json'' 3)])
      = Inr [TableName ''foo'', RFalse]
   \<and> trace (snd (indexArchive scenario_runtime scenario_db busy_archive)) =
       [TableDel ''foo'' ''dat://a/tables/foo/1.json'',
        Emit (IndexError ''dat://a/tables/foo/2.json''
                (JsError ''NotFoundError'' ''/tables/foo/2.json'')),
        MetaPut ''dat://a''
          \<lparr>meta_url = ''dat://a'', version = 4, meta_isWritable = None, meta_localPath = None\<rparr>,
        Emit (IndexUpdated ''foo'' ''dat://a'' 4),
        Emit (IndexesUpdated ''dat://a'' 4)]
   \<and> written_keys (trace (snd (indexArchive scenario_runtime scenario_db busy_archive)))
       = [''dat://a/tables/foo/1.json'']"
  using scan_keeps_latest[of busy_archive 1 5 busy_history scenario_db
      scenario_runtime "fst (indexArchive scenario_runtime scenario_db busy_archive)"
      "snd (indexArchive scenario_runtime scenario_db busy_archive)"]
  by (simp add: busy_archive_def busy_history_def put_update_def slash_path_def
      written_keys_def write_key_def scenario_defs run_defs)

text \<open>
  C7, as the code has it. \<^verbatim>\<open>addArchive\<close> stores the meta record with version 0 and runs the
  first pass. For an archive that reports version 0 the pass finds the watermark at the
  current version and returns: no table store is changed and the stored version is 0.
  For an archive that reports a version \<open>v\<close> of at least 1, with the database open and
  the history from 1 to \<open>v + 1\<close> being one put of a file that matches the table file
  patterns, can be read and parsed and is accepted by the first table that owns its path,
  the entry of the file is stored in that table at the key \<^verbatim>\<open>archive.url + path\<close> (the only
  entry when the store was empty), the stored version is \<open>v\<close>, and the archive is watched.
\<close>

theorem addArchive_indexes_from_version_1:
  "(getInfo a = Inr info \<and> info_version info = 0 \<longrightarrow>
      (\<exists>d' a'. addArchive rt ticks d a = (Some (Inr ()), d', a')
         \<and> tables d' = tables d
         \<and> indexMetaLevel d' (url a) =
             Some \<lparr>meta_url = url a, version = 0, meta_isWritable = Some (isOwner info),
                   meta_localPath = localPath a\<rparr>))
   \<and> (getInfo a = Inr info \<and> 0 < info_version info
        \<and> (isOpen d \<or> isBeingOpened d) \<and> db_level d
        \<and> history a 1 (info_version info + 1) = Inr [u]
        \<and> tableFilePatterns d (path u) \<and> utype u \<noteq> ''del''
        \<and> readFile a (path u) = Inr c \<and> JSON_parse rt c = Inr r0
        \<and> i < length (tables d) \<and> isRecordFile (tables d ! i) (path u)
        \<and> (\<forall>j<i. \<not> isRecordFile (tables d ! j) (path u))
        \<and> level_error (tables d ! i) = None
        \<and> (validator (tables d ! i) = None \<or>
            (\<exists>f v. validator (tables d ! i) = Some f \<and> f r0 = Inr v \<and> truthy v))
        \<and> (preprocess (tables d ! i) = None \<and> r1 = r0 \<or>
            (\<exists>g n. preprocess (tables d ! i) = Some g \<and> g r0 = Inr n \<and>
                   r1 = (if truthy n then n else r0)))
      \<longrightarrow>
      (\<exists>d' a'. addArchive rt ticks d a = (Some (Inr ()), d', a')
         \<and> level (tables d' ! i) =
             (level (tables d ! i))(url a @ path u \<mapsto>
                \<lparr>entry_url = url a @ path u, origin = url a, indexedAt = Date_now rt,
                 entry_record = r1\<rparr>)
         \<and> (level (tables d ! i) = Map.empty \<longrightarrow> dom (level (tables d' ! i)) = {url a @ path u})
         \<and> indexMetaLevel d' (url a) =
             Some \<lparr>meta_url = url a, version = info_version info,
                   meta_isWritable = Some (isOwner info), meta_localPath = localPath a\<rparr>
         \<and> fileEvents a' \<noteq> None))"
proof (intro conjI impI)
  assume "getInfo a = Inr info \<and> info_version info = 0"
  then have "addArchive rt ticks d a =
     (Some (Inr ()),
      meta_put d (url a)
        \<lparr>meta_url = url a, version = 0, meta_isWritable = Some (isOwner info),
         meta_localPath = localPath a\<rparr>,
      watchArchive
        (meta_put d (url a)
          \<lparr>meta_url = url a, version = 0, meta_isWritable = Some (isOwner info),
           meta_localPath = localPath a\<rparr>)
        (a\<lparr>isWritable := Some (isOwner info)\<rparr>))"
    using addArchive_version_0[of a info rt ticks d] by blast
  then show "\<exists>d' a'. addArchive rt ticks d a = (Some (Inr ()), d', a')
         \<and> tables d' = tables d
         \<and> indexMetaLevel d' (url a) =
             Some \<lparr>meta_url = url a, version = 0, meta_isWritable = Some (isOwner info),
                   meta_localPath = localPath a\<rparr>"
    by (simp add: meta_put_def)
next
  assume h: "getInfo a = Inr info \<and> 0 < info_version info
        \<and> (isOpen d \<or> isBeingOpened d) \<and> db_level d
        \<and> history a 1 (info_version info + 1) = Inr [u]
        \<and> tableFilePatterns d (path u) \<and> utype u \<noteq> ''del''
        \<and> readFile a (path u) = Inr c \<and> JSON_parse rt c = Inr r0
        \<and> i < length (tables d) \<and> isRecordFile (tables d ! i) (path u)
        \<and> (\<forall>j<i. \<not> isRecordFile (tables d ! j) (path u))
        \<and> level_error (tables d ! i) = None
        \<and> (validator (tables d ! i) = None \<or>
            (\<exists>f v. validator (tables d ! i) = Some f \<and> f r0 = Inr v \<and> truthy v))
        \<and> (preprocess (tables d ! i) = None \<and> r1 = r0 \<or>
            (\<exists>g n. preprocess (tables d ! i) = Some g \<and> g r0 = Inr n \<and>
                   r1 = (if truthy n then n else r0)))"
  have "\<exists>d' a'. addArchive rt ticks d a = (Some (Inr ()), d', a')
      \<and> level (tables d' ! i) =
          (level (tables d ! i))(url a @ path u \<mapsto>
             \<lparr>entry_url = url a @ path u, origin = url a, indexedAt = Date_now rt,
              entry_record = r1\<rparr>)
      \<and> indexMetaLevel d' (url a) =
          Some \<lparr>meta_url = url a, version = info_version info,
                meta_isWritable = Some (isOwner info), meta_localPath = localPath a\<rparr>
      \<and> fileEvents a' \<noteq> None"
    by (rule addArchive_first_pass[where c=c and ?r0.0=r0]) (use h in blast)+
  then obtain d' a' where r: "addArchive rt ticks d a = (Some (Inr ()), d', a')"
      "level (tables d' ! i) =
          (level (tables d ! i))(url a @ path u \<mapsto>
             \<lparr>entry_url = url a @ path u, origin = url a, indexedAt = Date_now rt,
              entry_record = r1\<rparr>)"
      "indexMetaLevel d' (url a) =
          Some \<lparr>meta_url = url a, version = info_version info,
                meta_isWritable = Some (isOwner info), meta_localPath = localPath a\<rparr>"
      "fileEvents a' \<noteq> None"
    by blast
  have "level (tables d ! i) = Map.empty \<longrightarrow> dom (level (tables d' ! i)) = {url a @ path u}"
    using r(2) by simp
  then show "\<exists>d' a'. addArchive rt ticks d a = (Some (Inr ()), d', a')
         \<and> level (tables d' ! i) =
             (level (tables d ! i))(url a @ path u \<mapsto>
                \<lparr>entry_url = url a @ path u, origin = url a, indexedAt = Date_now rt,
                 entry_record = r1\<rparr>)
         \<and> (level (tables d ! i) = Map.empty \<longrightarrow> dom (level (tables d' ! i)) = {url a @ path u})
         \<and> indexMetaLevel d' (url a) =
             Some \<lparr>meta_url = url a, version = info_version info,
                   meta_isWritable = Some (isOwner info), meta_localPath = localPath a\<rparr>
         \<and> fileEvents a' \<noteq> None"
    using r by blast
qed

theorem addArchive_indexes_from_version_1_witness:
  "getInfo (scenario_archive 1) = Inr \<lparr>info_version = 1, isOwner = True\<rparr>
   \<and> history (scenario_archive 1) 1 2 = Inr [put_update ''/tables/foo/1.json'' 1]
   \<and> readFile (scenario_archive 1) ''/tables/foo/1.json'' = Inr ''{}''
   \<and> level (tables scenario_db ! 0) = Map.empty
   \<and> fst (addArchive scenario_runtime [] scenario_db (scenario_archive 1)) = Some (Inr ())
   \<and> level (tables (fst (snd (addArchive scenario_runtime [] scenario_db (scenario_archive 1)))) ! 0)
      = [''dat://a/tables/foo/1.json'' \<mapsto>
           \<lparr>entry_url = ''dat://a/tables/foo/1.json'', origin = ''dat://a'', indexedAt = 1000,
            entry_record = JObject []\<rparr>]
   \<and> indexMetaLevel (fst (snd (addArchive scenario_runtime [] scenario_db (scenario_archive 1))))
        ''dat://a''
      = Some \<lparr>meta_url = ''dat://a'', version = 1, meta_isWritable = Some True,
              meta_localPath = None\<rparr>
   \<and> getInfo (scenario_archive 0) = Inr \<lparr>info_version = 0, isOwner = True\<rparr>
   \<and> tables (fst (snd (addArchive scenario_runtime [] scenario_db (scenario_archive 0))))
      = tables scenario_db"
proof -
  let ?u = "put_update ''/tables/foo/1.json'' 1"
  have h1: "getInfo (scenario_archive 1) = Inr \<lparr>info_version = 1, isOwner = True\<rparr>
      \<and> 0 < info_version \<lparr>info_version = 1, isOwner = True\<rparr>
      \<and> (isOpen scenario_db \<or> isBeingOpened scenario_db) \<and> db_level scenario_db
      \<and> history (scenario_archive 1) 1 (info_version \<lparr>info_version = 1, isOwner = True\<rparr> + 1)
          = Inr [?u]
      \<and> tableFilePatterns scenario_db (path ?u) \<and> utype ?u \<noteq> ''del''
      \<and> readFile (scenario_archive 1) (path ?u) = Inr ''{}''
      \<and> JSON_parse scenario_runtime ''{}'' = Inr (JObject [])
      \<and> 0 < length (tables scenario_db) \<and> isRecordFile (tables scenario_db ! 0) (path ?u)
      \<and> (\<forall>j<0. \<not> isRecordFile (tables scenario_db ! j) (path ?u))
      \<and> level_error (tables scenario_db ! 0) = None
      \<and> (validator (tables scenario_db ! 0) = None \<or>
          (\<exists>f v. validator (tables scenario_db ! 0) = Some f \<and> f (JObject []) = Inr v \<and> truthy v))
      \<and> (preprocess (tables scenario_db ! 0) = None \<and> JObject [] = JObject [] \<or>
          (\<exists>g n. preprocess (tables scenario_db ! 0) = Some g \<and> g (JObject []) = Inr n \<and>
                 JObject [] = (if truthy n then n else JObject [])))"
    by (simp add: put_update_def scenario_defs)
  have h0: "getInfo (scenario_archive 0) = Inr \<lparr>info_version = 0, isOwner = True\<rparr>
      \<and> info_version \<lparr>info_version = 0, isOwner = True\<rparr> = 0"
    by (simp add: scenario_defs)
  note t1 = addArchive_indexes_from_version_1[of "scenario_archive 1"
      "\<lparr>info_version = 1, isOwner = True\<rparr>"
      scenario_runtime "[]" scenario_db ?u "''{}''" "JObject []" 0 "JObject []"]
  from mp[OF conjunct2[OF t1] h1]
  obtain d' a' where 1: "addArchive scenario_runtime [] scenario_db (scenario_archive 1)
        = (Some (Inr ()), d', a')"
    "level (tables d' ! 0) =
       (level (tables scenario_db ! 0))(url (scenario_archive 1) @ path ?u \<mapsto>
          \<lparr>entry_url = url (scenario_archive 1) @ path ?u, origin = url (scenario_archive 1),
           indexedAt = Date_now scenario_runtime, entry_record = JObject []\<rparr>)"
    "indexMetaLevel d' (url (scenario_archive 1)) =
       Some \<lparr>meta_url = url (scenario_archive 1),
             version = info_version \<lparr>info_version = 1, isOwner = True\<rparr>,
             meta_isWritable = Some (isOwner \<lparr>info_version = 1, isOwner = True\<rparr>),
             meta_localPath = localPath (scenario_archive 1)\<rparr>"
    by (elim exE conjE)
  note t0 = addArchive_indexes_from_version_1[of "scenario_archive 0"
      "\<lparr>info_version = 0, isOwner = True\<rparr>" scenario_runtime "[]" scenario_db]
  from mp[OF conjunct1[OF t0] h0]
  obtain d0 a0 where 0: "addArchive scenario_runtime [] scenario_db (scenario_archive 0)
        = (Some (Inr ()), d0, a0)" "tables d0 = tables scenario_db"
    by (elim exE conjE)
  have e: "url (scenario_archive 1) = ''dat://a''" "path ?u = ''/tables/foo/1.json''"
    "Date_now scenario_runtime = 1000" "localPath (scenario_archive 1) = None"
    "level (tables scenario_db ! 0) = Map.empty"
    by (simp_all add: put_update_def scenario_defs)
  show ?thesis
    using h1 h0 1 0 e by (simp add: numeral_2_eq_2)
qed

text \<open>
  C7, as it is stated, fails in the scenario: the archive reports version 0 and has the
  file \<^verbatim>\<open>/tables/foo/1.json\<close>, which \<^verbatim>\<open>readAndIndexFile\<close> would store in \<^verbatim>\<open>foo\<close>; after
  \<^verbatim>\<open>addArchive\<close> the store of \<^verbatim>\<open>foo\<close> is empty (the stored version is 0, as stated).
\<close>

theorem version_0_counterexample:
  "getInfo (scenario_archive 0) = Inr \<lparr>info_version = 0, isOwner = True\<rparr>
   \<and> readFile (scenario_archive 0) ''/tables/foo/1.json'' = Inr ''{}''
   \<and> fst (readAndIndexFile scenario_runtime scenario_db (scenario_archive 0)
            \<lparr>info_version = 0, isOwner = True\<rparr> ''/tables/foo/1.json'') = Inr (TableName ''foo'')
   \<and> fst (addArchive scenario_runtime [] scenario_db (scenario_archive 0)) = Some (Inr ())
   \<and> level (tables (fst (snd (addArchive scenario_runtime [] scenario_db (scenario_archive 0)))) ! 0)
        ''dat://a/tables/foo/1.json'' = None
   \<and> dom (level (tables (fst (snd (addArchive scenario_runtime [] scenario_db
        (scenario_archive 0)))) ! 0)) = {}
   \<and> stored_watermark (fst (snd (addArchive scenario_runtime [] scenario_db (scenario_archive 0))))
        ''dat://a'' = 0"
  by (simp add: addArchive_def watchArchive_def scenario_defs run_defs)

text \<open>
  C9. \<^verbatim>\<open>removeArchive\<close> never changes the keys of \<^verbatim>\<open>db._archives\<close> nor \<^verbatim>\<open>db.isOpen\<close>, so
  the test of the retry loop, \<^verbatim>\<open>!db.isOpen || !(archive.url in db._archives)\<close>, has the
  same value after it as before. When every table lists its record files and no store
  rejects a delete, \<^verbatim>\<open>removeArchive\<close> returns, every listed record URL is gone from the
  store of its table, the meta record of the archive is gone, and the archive has no
  activity stream.
\<close>

theorem removeArchive_keeps_managed:
  "archives (fst (snd (removeArchive d a))) = archives d
   \<and> (\<not> isOpen (fst (snd (removeArchive d a))) \<or> url a \<notin> archives (fst (snd (removeArchive d a))))
       = (\<not> isOpen d \<or> url a \<notin> archives d)
   \<and> ((\<forall>t\<in>set (tables d). level_error t = None \<and> (\<exists>us. listRecordFiles t a = Inr us)) \<longrightarrow>
        fst (removeArchive d a) = Inr ()
        \<and> indexMetaLevel (fst (snd (removeArchive d a))) (url a) = None
        \<and> fileEvents (snd (snd (removeArchive d a))) = None
        \<and> (\<forall>i<length (tables d). \<forall>us u.
              listRecordFiles (tables d ! i) a = Inr us \<and> u \<in> set us
              \<longrightarrow> level (tables (fst (snd (removeArchive d a))) ! i) u = None))"
proof (intro conjI impI)
  show "archives (fst (snd (removeArchive d a))) = archives d"
    using removeArchive_frame[of d a] by simp
  show "(\<not> isOpen (fst (snd (removeArchive d a))) \<or> url a \<notin> archives (fst (snd (removeArchive d a))))
       = (\<not> isOpen d \<or> url a \<notin> archives d)"
    using removeArchive_frame[of d a] by simp
next
  assume h: "\<forall>t\<in>set (tables d). level_error t = None \<and> (\<exists>us. listRecordFiles t a = Inr us)"
  note s = removeArchive_succeeds[OF h]
  show "fst (removeArchive d a) = Inr ()" using s by blast
  show "indexMetaLevel (fst (snd (removeArchive d a))) (url a) = None" using s by blast
  show "fileEvents (snd (snd (removeArchive d a))) = None" using s by blast
  show "\<forall>i<length (tables d). \<forall>us u.
              listRecordFiles (tables d ! i) a = Inr us \<and> u \<in> set us
              \<longrightarrow> level (tables (fst (snd (removeArchive d a))) ! i) u = None"
    using s by blast
qed

theorem removeArchive_keeps_managed_witness:
  "level_error foo_table = None
   \<and> listRecordFiles foo_table watched_archive = Inr [''dat://a/tables/foo/1.json'']
   \<and> level (tables indexed_db ! 0) ''dat://a/tables/foo/1.json'' \<noteq> None
   \<and> indexMetaLevel indexed_db ''dat://a'' \<noteq> None
   \<and> fileEvents watched_archive \<noteq> None
   \<and> ''dat://a'' \<in> archives indexed_db
   \<and> fst (removeArchive indexed_db watched_archive) = Inr ()
   \<and> level (tables (fst (snd (removeArchive indexed_db watched_archive))) ! 0)
        ''dat://a/tables/foo/1.json'' = None
   \<and> indexMetaLevel (fst (snd (removeArchive indexed_db watched_archive))) ''dat://a'' = None
   \<and> fileEvents (snd (snd (removeArchive indexed_db watched_archive))) = None
   \<and> ''dat://a'' \<in> archives (fst (snd (removeArchive indexed_db watched_archive)))"
proof -
  have db: "indexed_db =
      scenario_db\<lparr>tables := [foo_table\<lparr>level := [''dat://a/tables/foo/1.json'' \<mapsto>
           \<lparr>entry_url = ''dat://a/tables/foo/1.json'', origin = ''dat://a'', indexedAt = 1000,
            entry_record = JObject []\<rparr>]\<rparr>],
        indexMetaLevel := [''dat://a'' \<mapsto>
           \<lparr>meta_url = ''dat://a'', version = 1, meta_isWritable = Some True,
            meta_localPath = None\<rparr>],
        trace := trace indexed_db\<rparr>"
    by (simp add: indexed_db_def addArchive_def watchArchive_def scenario_defs run_defs)
  have h: "\<forall>t\<in>set (tables indexed_db). level_error t = None \<and>
      (\<exists>us. listRecordFiles t watched_archive = Inr us)"
    by (subst db) (simp add: scenario_defs)
  have u: "url watched_archive = ''dat://a''" by (simp add: watched_archive_def scenario_defs)
  have l: "0 < length (tables indexed_db)
      \<and> listRecordFiles (tables indexed_db ! 0) watched_archive = Inr [''dat://a/tables/foo/1.json'']
      \<and> ''dat://a/tables/foo/1.json'' \<in> set [''dat://a/tables/foo/1.json'']"
    by (subst db, subst db) (simp add: watched_archive_def scenario_defs)
  have pre: "level_error foo_table = None
     \<and> listRecordFiles foo_table watched_archive = Inr [''dat://a/tables/foo/1.json'']
     \<and> level (tables indexed_db ! 0) ''dat://a/tables/foo/1.json'' \<noteq> None
     \<and> indexMetaLevel indexed_db ''dat://a'' \<noteq> None
     \<and> fileEvents watched_archive \<noteq> None
     \<and> ''dat://a'' \<in> archives indexed_db"
    by (subst db, subst db, subst db) (simp add: watched_archive_def scenario_defs)
  note t = removeArchive_keeps_managed[of indexed_db watched_archive]
  note s = mp[OF conjunct2[OF conjunct2[OF t]] h]
  have "level (tables (fst (snd (removeArchive indexed_db watched_archive))) ! 0)
        ''dat://a/tables/foo/1.json'' = None"
    using conjunct2[OF conjunct2[OF conjunct2[OF s]]] l by blast
  moreover have "''dat://a'' \<in> archives (fst (snd (removeArchive indexed_db watched_archive)))"
    using conjunct1[OF t] pre by simp
  ultimately show ?thesis
    using pre conjunct1[OF s] conjunct1[OF conjunct2[OF s]] conjunct1[OF conjunct2[OF conjunct2[OF s]]] u
    by simp
qed

text \<open>
  C8. For an initial error that is not a timeout \<^verbatim>\<open>onFailInitialIndex\<close> emits
  \<^verbatim>\<open>source-error\<close> once and returns, whatever happens later. For a timeout it emits
  \<^verbatim>\<open>source-missing\<close>; what the loop adds after that contains no signal about the source and
  begins with a wait of 30 seconds; when the loop is left because the archive is not a
  source any more or because a retry failed otherwise, nothing more is emitted; when a
  retry succeeded, \<^verbatim>\<open>source-found\<close> is emitted and the archive is watched. Each iteration
  waits 30 seconds and then, at the wake-up: leaves the loop if the database is closed or
  the archive's URL is not in \<^verbatim>\<open>db._archives\<close>; otherwise retries the pass, and leaves with
  success if the pass returns, leaves with the state of the wake-up if it fails with an
  error that is not a timeout, and goes to the next iteration from the state of the
  wake-up if it times out.
\<close>

theorem retry_loop_behaviour:
  "(err_name e \<noteq> ''TimeoutError'' \<longrightarrow>
      onFailInitialIndex rt ticks e d a = (Some (Inr ()), emit (SourceError (url a) e) d, a))
   \<and> (err_name e = ''TimeoutError'' \<and>
       retryLoop rt ticks (emit (SourceMissing (url a)) d) a = (ex, d1, a1) \<longrightarrow>
        (\<exists>evs. trace d1 = trace d @ [Emit (SourceMissing (url a))] @ evs
            \<and> (\<forall>x\<in>set evs. \<not> is_source_signal x)
            \<and> (ticks \<noteq> [] \<longrightarrow> evs \<noteq> [] \<and> hd evs = Wait 30000))
        \<and> (ex = StillWaiting \<longrightarrow> onFailInitialIndex rt ticks e d a = (None, d1, a1))
        \<and> (ex = NotASource \<or> ex = Aborted \<longrightarrow>
              onFailInitialIndex rt ticks e d a = (Some (Inr ()), d1, a1))
        \<and> (ex = MadeIt \<longrightarrow>
              onFailInitialIndex rt ticks e d a =
                (Some (Inr ()), emit (SourceFound (url a1)) d1, watchArchive d1 a1)
              \<and> fileEvents (watchArchive d1 a1) \<noteq> None))
   \<and> (\<not> isOpen (wake t d) \<or> url (snd t a) \<notin> archives (wake t d) \<longrightarrow>
        retryLoop rt (t # ts) d a = (NotASource, wake t d, snd t a))
   \<and> (isOpen (wake t d) \<and> url (snd t a) \<in> archives (wake t d) \<longrightarrow>
        (indexArchive rt (wake t d) (snd t a) = (Inr (), d2) \<longrightarrow>
           retryLoop rt (t # ts) d a = (MadeIt, d2, snd t a))
        \<and> (fst (indexArchive rt (wake t d) (snd t a)) = Inl e' \<and> err_name e' \<noteq> ''TimeoutError'' \<longrightarrow>
             retryLoop rt (t # ts) d a = (Aborted, wake t d, snd t a))
        \<and> (fst (indexArchive rt (wake t d) (snd t a)) = Inl e' \<and> err_name e' = ''TimeoutError'' \<longrightarrow>
             retryLoop rt (t # ts) d a = retryLoop rt ts (wake t d) (snd t a)))
   \<and> trace (wake t d) = trace d @ [Wait 30000]"
proof (intro conjI impI)
  assume "err_name e \<noteq> ''TimeoutError''"
  then show "onFailInitialIndex rt ticks e d a = (Some (Inr ()), emit (SourceError (url a) e) d, a)"
    by (simp add: onFailInitialIndex_def)
next
  assume h: "err_name e = ''TimeoutError'' \<and>
       retryLoop rt ticks (emit (SourceMissing (url a)) d) a = (ex, d1, a1)"
  obtain evs where evs: "trace (fst (snd (retryLoop rt ticks (emit (SourceMissing (url a)) d) a)))
      = trace (emit (SourceMissing (url a)) d) @ evs"
    "\<forall>e\<in>set evs. \<not> is_source_signal e" "ticks \<noteq> [] \<longrightarrow> evs \<noteq> [] \<and> hd evs = Wait 30000"
    using retryLoop_trace[of rt ticks "emit (SourceMissing (url a)) d" a] by blast
  have "trace d1 = trace d @ [Emit (SourceMissing (url a))] @ evs"
    using evs(1) h by (simp add: emit_def)
  then show "\<exists>evs. trace d1 = trace d @ [Emit (SourceMissing (url a))] @ evs
            \<and> (\<forall>x\<in>set evs. \<not> is_source_signal x)
            \<and> (ticks \<noteq> [] \<longrightarrow> evs \<noteq> [] \<and> hd evs = Wait 30000)"
    using evs(2,3) by blast
next
  assume "err_name e = ''TimeoutError'' \<and>
       retryLoop rt ticks (emit (SourceMissing (url a)) d) a = (ex, d1, a1)"
    and "ex = StillWaiting"
  then show "onFailInitialIndex rt ticks e d a = (None, d1, a1)"
    by (simp add: onFailInitialIndex_def)
next
  assume "err_name e = ''TimeoutError'' \<and>
       retryLoop rt ticks (emit (SourceMissing (url a)) d) a = (ex, d1, a1)"
    and "ex = NotASource \<or> ex = Aborted"
  then show "onFailInitialIndex rt ticks e d a = (Some (Inr ()), d1, a1)"
    by (auto simp: onFailInitialIndex_def)
next
  assume "err_name e = ''TimeoutError'' \<and>
       retryLoop rt ticks (emit (SourceMissing (url a)) d) a = (ex, d1, a1)"
    and "ex = MadeIt"
  then show "onFailInitialIndex rt ticks e d a =
                (Some (Inr ()), emit (SourceFound (url a1)) d1, watchArchive d1 a1)"
    by (simp add: onFailInitialIndex_def)
next
  show "fileEvents (watchArchive d1 a1) \<noteq> None" by (simp add: watchArchive_def)
next
  assume "\<not> isOpen (wake t d) \<or> url (snd t a) \<notin> archives (wake t d)"
  then show "retryLoop rt (t # ts) d a = (NotASource, wake t d, snd t a)"
    unfolding retryLoop_step by simp
next
  assume "isOpen (wake t d) \<and> url (snd t a) \<in> archives (wake t d)"
    and "indexArchive rt (wake t d) (snd t a) = (Inr (), d2)"
  then show "retryLoop rt (t # ts) d a = (MadeIt, d2, snd t a)"
    unfolding retryLoop_step by simp
next
  assume "isOpen (wake t d) \<and> url (snd t a) \<in> archives (wake t d)"
    and "fst (indexArchive rt (wake t d) (snd t a)) = Inl e' \<and> err_name e' \<noteq> ''TimeoutError''"
  then show "retryLoop rt (t # ts) d a = (Aborted, wake t d, snd t a)"
    unfolding retryLoop_step by (cases "indexArchive rt (wake t d) (snd t a)") simp
next
  assume "isOpen (wake t d) \<and> url (snd t a) \<in> archives (wake t d)"
    and "fst (indexArchive rt (wake t d) (snd t a)) = Inl e' \<and> err_name e' = ''TimeoutError''"
  then show "retryLoop rt (t # ts) d a = retryLoop rt ts (wake t d) (snd t a)"
    unfolding retryLoop_step by (cases "indexArchive rt (wake t d) (snd t a)") simp
next
  show "trace (wake t d) = trace d @ [Wait 30000]" by (simp add: wake_def)
qed

theorem retry_loop_behaviour_witness:
  "fst (indexArchive scenario_runtime scenario_db unreachable_archive) = Inl timeout_error
   \<and> err_name timeout_error = ''TimeoutError''
   \<and> fst (onFailInitialIndex scenario_runtime [no_longer_managed, reachable_again] timeout_error
            scenario_db unreachable_archive) = Some (Inr ())
   \<and> trace (fst (snd (onFailInitialIndex scenario_runtime [no_longer_managed, reachable_again]
            timeout_error scenario_db unreachable_archive)))
      = [Emit (SourceMissing ''dat://a''), Wait 30000]
   \<and> trace (fst (snd (onFailInitialIndex scenario_runtime [still_unreachable, reachable_again]
            timeout_error scenario_db unreachable_archive)))
      = [Emit (SourceMissing ''dat://a''), Wait 30000, Wait 30000,
         TablePut ''foo'' ''dat://a/tables/foo/1.json''
           \<lparr>entry_url = ''dat://a/tables/foo/1.json'', origin = ''dat://a'', indexedAt = 1000,
            entry_record = JObject []\<rparr>,
         MetaPut ''dat://a''
           \<lparr>meta_url = ''dat://a'', version = 1, meta_isWritable = None, meta_localPath = None\<rparr>,
         Emit (IndexUpdated ''foo'' ''dat://a'' 1),
         Emit (IndexesUpdated ''dat://a'' 1),
         Emit (SourceFound ''dat://a'')]
   \<and> fileEvents (snd (snd (onFailInitialIndex scenario_runtime [still_unreachable, reachable_again]
            timeout_error scenario_db unreachable_archive))) \<noteq> None
   \<and> fst (onFailInitialIndex scenario_runtime [fails_otherwise, reachable_again] timeout_error
            scenario_db unreachable_archive) = Some (Inr ())
   \<and> trace (fst (snd (onFailInitialIndex scenario_runtime [fails_otherwise, reachable_again]
            timeout_error scenario_db unreachable_archive)))
      = [Emit (SourceMissing ''dat://a''), Wait 30000]
   \<and> fst (onFailInitialIndex scenario_runtime [still_unreachable] timeout_error
            scenario_db unreachable_archive) = None
   \<and> err_name other_error \<noteq> ''TimeoutError''
   \<and> trace (fst (snd (onFailInitialIndex scenario_runtime [reachable_again] other_error
            scenario_db unreachable_archive)))
      = [Emit (SourceError ''dat://a'' other_error)]"
  using retry_loop_behaviour[of other_error scenario_runtime "[reachable_again]" scenario_db
      unreachable_archive]
    retry_loop_behaviour[of timeout_error scenario_runtime "[no_longer_managed, reachable_again]"
      scenario_db unreachable_archive NotASource
      "fst (snd (retryLoop scenario_runtime [no_longer_managed, reachable_again]
         (emit (SourceMissing (url unreachable_archive)) scenario_db) unreachable_archive))"
      "snd (snd (retryLoop scenario_runtime [no_longer_managed, reachable_again]
         (emit (SourceMissing (url unreachable_archive)) scenario_db) unreachable_archive))"]
  by (simp add: loop_defs scenario_defs run_defs)

end
